theory Spec2Isabelle
  imports Complex_Main "HOL-Library.Char_ord" "HOL-Library.List_Lexorder" "HOL-Library.Log_Nat"
begin

chapter \<open>tw2panda: a shallow embedding of the conversion and analysis core\<close>

text \<open>
  The TypeScript sources are embedded function by function. A JavaScript string is a
  \<^typ>\<open>string\<close>, read as its sequence of UTF-16 code units in the range 0-255; an array
  and an insertion-ordered \<open>Set\<close> are lists; a \<open>Map\<close> is an association list in
  insertion order, updated in place; a \<open>try/catch\<close> is a case split on a sum whose
  \<open>Inl\<close> carries the error text.
\<close>

section \<open>Style objects and extracted patterns\<close>

text \<open>
  \<open>StyleObject\<close> (types.ts, used by every file): a nested object whose leaves are
  strings; \<open>SOther\<close> stands for a leaf that is neither a string nor an object.
\<close>

datatype style = SString string | SObject "(string \<times> style) list" | SOther string

text \<open>
  \<open>ExtractedPattern\<close> of analyze-project.ts. The fields \<open>id\<close>, \<open>classes\<close>,
  \<open>styles\<close>, \<open>count\<close>, \<open>files\<close> carry the prefix \<open>p_\<close>; \<open>locations\<close> is
  always the empty array in the source and left out.
\<close>

record extractedPattern =
  p_id :: string
  p_classes :: "string list"
  p_styles :: style
  p_count :: nat
  p_files :: "string list"

section \<open>Strings\<close>

text \<open>
  The character classes of the regular expressions: \<open>\w\<close> is \<open>[A-Za-z0-9_]\<close>, \<open>\d\<close> is
  \<open>[0-9]\<close>; white space (\<open>\s\<close>, \<open>trim\<close>) is tab, line feed, vertical tab, form feed,
  carriage return, space and the no-break space.
\<close>

definition isDigit :: "char \<Rightarrow> bool" where
  "isDigit c \<longleftrightarrow> (let n = (of_char c :: nat) in 48 \<le> n \<and> n \<le> 57)"

definition isLower :: "char \<Rightarrow> bool" where
  "isLower c \<longleftrightarrow> (let n = (of_char c :: nat) in 97 \<le> n \<and> n \<le> 122)"

definition isUpper :: "char \<Rightarrow> bool" where
  "isUpper c \<longleftrightarrow> (let n = (of_char c :: nat) in 65 \<le> n \<and> n \<le> 90)"

definition isWordChar :: "char \<Rightarrow> bool" where
  "isWordChar c \<longleftrightarrow> isLower c \<or> isUpper c \<or> isDigit c \<or> c = CHR ''_''"

definition isHexDigit :: "char \<Rightarrow> bool" where
  "isHexDigit c \<longleftrightarrow>
     isDigit c \<or> (let n = (of_char c :: nat) in (97 \<le> n \<and> n \<le> 102) \<or> (65 \<le> n \<and> n \<le> 70))"

definition isSpace :: "char \<Rightarrow> bool" where
  "isSpace c \<longleftrightarrow> (let n = (of_char c :: nat) in (9 \<le> n \<and> n \<le> 13) \<or> n = 32 \<or> n = 160)"

definition toUpperCase :: "char \<Rightarrow> char" where
  "toUpperCase c = (if isLower c then char_of ((of_char c :: nat) - 32) else c)"

definition trim :: "string \<Rightarrow> string" where
  "trim s = rev (dropWhile isSpace (rev (dropWhile isSpace s)))"

fun startsWith :: "string \<Rightarrow> string \<Rightarrow> bool" where
  "startsWith s [] = True"
| "startsWith [] (p # ps) = False"
| "startsWith (c # s) (p # ps) = (c = p \<and> startsWith s ps)"

fun includesStr :: "string \<Rightarrow> string \<Rightarrow> bool" where
  "includesStr [] sub = (sub = [])"
| "includesStr (c # s) sub = (startsWith (c # s) sub \<or> includesStr s sub)"

text \<open>
  \<open>kebabToCamel\<close> (tw-class-list-to-panda-styles.ts):
  \<open>str.replace(/(-\w)/g, (group) => (group[1] ?? "").toUpperCase())\<close>. Scanning from
  the left, a dash followed by a word character is replaced by that character in upper
  case, and the scan goes on after the pair.
\<close>

fun kebabToCamel :: "string \<Rightarrow> string" where
  "kebabToCamel [] = []"
| "kebabToCamel [c] = [c]"
| "kebabToCamel (c # d # rest) =
     (if c = CHR ''-'' \<and> isWordChar d then toUpperCase d # kebabToCamel rest
      else c # kebabToCamel (d # rest))"

section \<open>Token values (\<open>isResolvableValue\<close>, \<open>formatTokenValue\<close>, tw-class-list-to-panda-styles.ts)\<close>

text \<open>
  The twelve patterns of \<open>usablePatterns\<close>, in the source's order. Pattern 3,
  \<open>/^-?[\d.]+(%|px|...)?$/\<close>: after an optional minus sign, the longest run of digits
  and dots must not be empty, and what follows it is nothing or one of the units (no
  unit starts with a digit or a dot, so a shorter run cannot match).
\<close>

definition hexColorPattern :: "string \<Rightarrow> bool" where
  "hexColorPattern v \<longleftrightarrow>
     (case v of [] \<Rightarrow> False
      | c # hs \<Rightarrow> c = CHR ''#'' \<and> 3 \<le> length hs \<and> length hs \<le> 8 \<and> list_all isHexDigit hs)"

definition colorFunctionPattern :: "string \<Rightarrow> bool" where
  "colorFunctionPattern v \<longleftrightarrow>
     list_ex (\<lambda>f. startsWith v (f @ ''(''))
       [''rgb'', ''rgba'', ''hsl'', ''hsla'', ''oklch'', ''oklab'', ''lab'', ''lch'']"

definition numberUnits :: "string list" where
  "numberUnits = [''%'', ''px'', ''rem'', ''em'', ''vh'', ''vw'', ''vmin'', ''vmax'', ''ch'', ''ex'',
     ''cm'', ''mm'', ''in'', ''pt'', ''pc'', ''deg'', ''rad'', ''turn'', ''s'', ''ms'']"

definition numberPattern :: "string \<Rightarrow> bool" where
  "numberPattern v \<longleftrightarrow>
     (let body = (case v of [] \<Rightarrow> [] | c # cs \<Rightarrow> if c = CHR ''-'' then cs else v);
          digits = takeWhile (\<lambda>c. isDigit c \<or> c = CHR ''.'') body;
          unit = dropWhile (\<lambda>c. isDigit c \<or> c = CHR ''.'') body
      in digits \<noteq> [] \<and> (unit = [] \<or> unit \<in> set numberUnits))"

definition keywordPatterns :: "string list list" where
  "keywordPatterns =
     [[''auto'', ''none'', ''inherit'', ''initial'', ''unset'', ''revert'', ''normal'', ''bold'',
       ''italic'', ''block'', ''inline'', ''flex'', ''grid'', ''hidden'', ''visible'', ''absolute'',
       ''relative'', ''fixed'', ''sticky'', ''static''],
      [''left'', ''right'', ''center'', ''top'', ''bottom'', ''baseline'', ''stretch'', ''start'',
       ''end'', ''space-between'', ''space-around'', ''space-evenly''],
      [''solid'', ''dashed'', ''dotted'', ''double'', ''groove'', ''ridge'', ''inset'', ''outset'',
       ''none'', ''hidden''],
      [''uppercase'', ''lowercase'', ''capitalize'', ''none''],
      [''wrap'', ''nowrap'', ''wrap-reverse''],
      [''row'', ''column'', ''row-reverse'', ''column-reverse''],
      [''cover'', ''contain'', ''auto'']]"

definition usablePatterns :: "(string \<Rightarrow> bool) list" where
  "usablePatterns =
     [hexColorPattern, colorFunctionPattern, numberPattern]
     @ map (\<lambda>keywords v. v \<in> set keywords) keywordPatterns
     @ [\<lambda>v. startsWith v ''url('', \<lambda>v. startsWith v ''calc('']"

definition isResolvableValue :: "string \<Rightarrow> bool" where
  "isResolvableValue v \<longleftrightarrow>
     (if includesStr v ''var(--'' then False
      else list_ex (\<lambda>pattern. pattern (trim v)) usablePatterns)"

text \<open>The entries of \<open>PROP_TO_TOKEN_CATEGORY\<close>, in the source's order.\<close>

definition PROP_TO_TOKEN_CATEGORY :: "(string \<times> string) list" where
  "PROP_TO_TOKEN_CATEGORY =
     [(''color'', ''colors''), (''backgroundColor'', ''colors''), (''borderColor'', ''colors''),
      (''borderTopColor'', ''colors''), (''borderRightColor'', ''colors''),
      (''borderBottomColor'', ''colors''), (''borderLeftColor'', ''colors''),
      (''outlineColor'', ''colors''), (''fill'', ''colors''), (''stroke'', ''colors''),
      (''caretColor'', ''colors''), (''accentColor'', ''colors''),
      (''textDecorationColor'', ''colors''), (''fontSize'', ''fontSizes''),
      (''fontWeight'', ''fontWeights''), (''fontFamily'', ''fonts''),
      (''lineHeight'', ''lineHeights''), (''letterSpacing'', ''letterSpacings''),
      (''width'', ''sizes''), (''height'', ''sizes''), (''minWidth'', ''sizes''),
      (''minHeight'', ''sizes''), (''maxWidth'', ''sizes''), (''maxHeight'', ''sizes''),
      (''padding'', ''spacing''), (''paddingTop'', ''spacing''), (''paddingRight'', ''spacing''),
      (''paddingBottom'', ''spacing''), (''paddingLeft'', ''spacing''),
      (''paddingInline'', ''spacing''), (''paddingBlock'', ''spacing''), (''margin'', ''spacing''),
      (''marginTop'', ''spacing''), (''marginRight'', ''spacing''), (''marginBottom'', ''spacing''),
      (''marginLeft'', ''spacing''), (''marginInline'', ''spacing''), (''marginBlock'', ''spacing''),
      (''gap'', ''spacing''), (''rowGap'', ''spacing''), (''columnGap'', ''spacing''),
      (''top'', ''spacing''), (''right'', ''spacing''), (''bottom'', ''spacing''),
      (''left'', ''spacing''), (''inset'', ''spacing''), (''borderRadius'', ''radii''),
      (''borderTopLeftRadius'', ''radii''), (''borderTopRightRadius'', ''radii''),
      (''borderBottomLeftRadius'', ''radii''), (''borderBottomRightRadius'', ''radii''),
      (''borderWidth'', ''borderWidths''), (''borderTopWidth'', ''borderWidths''),
      (''borderRightWidth'', ''borderWidths''), (''borderBottomWidth'', ''borderWidths''),
      (''borderLeftWidth'', ''borderWidths''), (''boxShadow'', ''shadows''),
      (''opacity'', ''opacity''), (''zIndex'', ''zIndex''),
      (''transitionDuration'', ''durations''), (''transitionTimingFunction'', ''easings''),
      (''animationDuration'', ''durations''), (''animationTimingFunction'', ''easings'')]"

text \<open>
  \<open>PROP_TO_TOKEN_CATEGORY\<close> is an object literal, so \<open>PROP_TO_TOKEN_CATEGORY[propName]\<close>
  reads a property of the object: an entry of the table, or else a member the object
  inherits from \<open>Object.prototype\<close> (a function, or the prototype object for
  \<open>__proto__\<close>), or else \<open>undefined\<close>. Every entry is a non-empty string and every
  inherited member is an object, so \<open>if (category)\<close> holds for both. The list gives, for
  each inherited member, the text the template literal \<open>${category}\<close> produces for it.
\<close>

definition nativeFunctionText :: "string \<Rightarrow> string" where
  "nativeFunctionText name = ''function '' @ name @ ''() { [native code] }''"

definition objectPrototypeMembers :: "(string \<times> string) list" where
  "objectPrototypeMembers =
     [(''constructor'', nativeFunctionText ''Object''),
      (''__defineGetter__'', nativeFunctionText ''__defineGetter__''),
      (''__defineSetter__'', nativeFunctionText ''__defineSetter__''),
      (''hasOwnProperty'', nativeFunctionText ''hasOwnProperty''),
      (''__lookupGetter__'', nativeFunctionText ''__lookupGetter__''),
      (''__lookupSetter__'', nativeFunctionText ''__lookupSetter__''),
      (''isPrototypeOf'', nativeFunctionText ''isPrototypeOf''),
      (''propertyIsEnumerable'', nativeFunctionText ''propertyIsEnumerable''),
      (''toString'', nativeFunctionText ''toString''),
      (''valueOf'', nativeFunctionText ''valueOf''),
      (''__proto__'', ''[object Object]''),
      (''toLocaleString'', nativeFunctionText ''toLocaleString'')]"

definition categoryOf :: "string \<Rightarrow> string option" where
  "categoryOf propName =
     (case map_of PROP_TO_TOKEN_CATEGORY propName of
        Some category \<Rightarrow> Some category
      | None \<Rightarrow> map_of objectPrototypeMembers propName)"

definition tokenReference :: "string \<Rightarrow> string \<Rightarrow> string \<Rightarrow> string" where
  "tokenReference category tokenName rawValue =
     ''token('' @ category @ ''.'' @ tokenName @ '', '' @ rawValue @ '')''"

definition formatTokenValue :: "string \<Rightarrow> string \<Rightarrow> string \<Rightarrow> string" where
  "formatTokenValue propName tokenName rawValue =
     (if tokenName = rawValue then rawValue
      else if \<not> isResolvableValue rawValue then rawValue
      else (case categoryOf propName of
              Some category \<Rightarrow> tokenReference category tokenName rawValue
            | None \<Rightarrow> rawValue))"

section \<open>Class lists to style objects (\<open>twClassListToPandaStyles\<close>)\<close>

text \<open>
  What \<open>parseTwClassName\<close> returns (tw-parser.ts is not among the sources; these are the
  fields the conversion reads): \<open>modifiers\<close>, \<open>value\<close> (absent is \<open>None\<close>),
  \<open>permutations\<close> (kept as the truth value the source tests) and \<open>isImportant\<close>.
\<close>

record twClassInfo =
  ci_modifiers :: "string list"
  ci_value :: "string option"
  ci_permutations :: bool
  ci_isImportant :: bool

text \<open>\<open>ParsedCssProperty\<close> and \<open>MatchingToken\<close>, fields prefixed \<open>cp_\<close> and \<open>mt_\<close>.\<close>

record parsedCssProperty =
  cp_propName :: string
  cp_tokenPath :: string
  cp_rawValue :: string

record matchingToken =
  mt_propName :: string
  mt_tokenName :: string
  mt_rawValue :: string
  mt_classInfo :: twClassInfo

text \<open>
  The collaborators of the conversion, as functions: the class parser; the resolver
  \<open>tailwind.candidatesToCss([cls])[0]\<close> (\<open>None\<close> for \<open>null\<close> or \<open>undefined\<close>); what
  \<open>parseCssProperties(css, tailwind)\<close> returns for a CSS text (its scan and its number
  formatting are not modelled: every theorem holds whatever it returns); whether
  \<open>prop && panda.utility.getPropertyValues(prop)\<close> is truthy for a property name; the
  length of \<open>tailwind.parseCandidate(tokenPath)\<close>; whether
  \<open>panda.conditions.values[key]\<close> is truthy; and the external \<open>mergeCss\<close> and
  \<open>mapToShorthands\<close>, which may throw (\<open>Inl\<close>).
\<close>

record conversionEnv =
  parseTwClassName :: "string \<Rightarrow> twClassInfo option"
  candidatesToCss :: "string \<Rightarrow> string option"
  parseCssProperties :: "string \<Rightarrow> parsedCssProperty list"
  propertyValues :: "string \<Rightarrow> bool"
  parseCandidate :: "string \<Rightarrow> nat"
  conditionsValues :: "string \<Rightarrow> bool"
  mergeCss :: "style list \<Rightarrow> string + style"
  mapToShorthands :: "style \<Rightarrow> string + style"

text \<open>\<open>!css\<close> and \<open>!classInfo.value\<close>: absent or the empty string.\<close>

definition falsy :: "string option \<Rightarrow> bool" where
  "falsy v \<longleftrightarrow> v = None \<or> v = Some []"

text \<open>\<open>text.replace("-", ".")\<close> replaces the first dash only.\<close>

fun replaceFirstDash :: "string \<Rightarrow> string" where
  "replaceFirstDash [] = []"
| "replaceFirstDash (c # s) = (if c = CHR ''-'' then CHR ''.'' # s else c # replaceFirstDash s)"

text \<open>The body of \<open>propNameList.forEach\<close>: no token when the token name is empty.\<close>

definition matchingTokenOf ::
  "conversionEnv \<Rightarrow> twClassInfo \<Rightarrow> parsedCssProperty \<Rightarrow> matchingToken option" where
  "matchingTokenOf env classInfo ruleProp =
     (let propName = kebabToCamel (cp_propName ruleProp);
          tokenPath = cp_tokenPath ruleProp;
          tokenName =
            (if parseCandidate env tokenPath > 0 \<or> \<not> propertyValues env propName
             then tokenPath
             else replaceFirstDash (case ci_value classInfo of None \<Rightarrow> [] | Some v \<Rightarrow> v))
      in if tokenName = [] then None
         else Some \<lparr>mt_propName = propName,
                    mt_tokenName = (if ci_isImportant classInfo then tokenName @ ''!'' else tokenName),
                    mt_rawValue =
                      (if ci_isImportant classInfo then cp_rawValue ruleProp @ '' !important''
                       else cp_rawValue ruleProp),
                    mt_classInfo = classInfo\<rparr>)"

definition getMatchingTwCandidates :: "conversionEnv \<Rightarrow> string \<Rightarrow> matchingToken list" where
  "getMatchingTwCandidates env className =
     (case parseTwClassName env className of
        None \<Rightarrow> []
      | Some classInfo \<Rightarrow>
          if falsy (ci_value classInfo) \<and> \<not> ci_permutations classInfo then []
          else if falsy (candidatesToCss env className) then []
          else List.map_filter (matchingTokenOf env classInfo)
                 (parseCssProperties env (the (candidatesToCss env className))))"

text \<open>
  The key of one modifier, and the \<open>reduce\<close> over \<open>classInfo.modifiers\<close>: it starts from
  \<open>{[propName]: formattedValue}\<close> and wraps the accumulator once per modifier, going
  through the list from its first element.
\<close>

definition conditionKey :: "conversionEnv \<Rightarrow> string \<Rightarrow> string" where
  "conditionKey env modifier =
     (let camelModifier = kebabToCamel modifier;
          prefixed = ''_'' @ camelModifier
      in if conditionsValues env prefixed then prefixed
         else if conditionsValues env camelModifier then camelModifier
         else modifier)"

definition nestedStyles :: "conversionEnv \<Rightarrow> matchingToken \<Rightarrow> style" where
  "nestedStyles env match =
     foldl (\<lambda>acc modifier. SObject [(conditionKey env modifier, acc)])
       (SObject [(mt_propName match,
                  SString (formatTokenValue (mt_propName match) (mt_tokenName match)
                             (mt_rawValue match)))])
       (ci_modifiers (mt_classInfo match))"

definition twClassListToPandaStyles ::
  "conversionEnv \<Rightarrow> string list \<Rightarrow> (matchingToken \<times> style) list" where
  "twClassListToPandaStyles env classList =
     concat (map (\<lambda>className.
                    map (\<lambda>match. (match, nestedStyles env match))
                      (getMatchingTwCandidates env className))
               classList)"

section \<open>Categorizing a class list (\<open>categorizeClasses\<close>, rewrite-tw-file-content-to-panda.ts)\<close>

text \<open>
  \<open>TAILWIND_MARKER_CLASS_PATTERN\<close>, \<open>/^(group|peer)(\/[\w-]+)?$/\<close>: \<open>group\<close> or
  \<open>peer\<close>, alone or followed by a slash and a non-empty name of word characters and
  dashes.
\<close>

definition markerRest :: "string \<Rightarrow> bool" where
  "markerRest rest \<longleftrightarrow>
     rest = [] \<or>
     (case rest of [] \<Rightarrow> False
      | c # name \<Rightarrow> c = CHR ''/'' \<and> name \<noteq> [] \<and>
                    list_all (\<lambda>d. isWordChar d \<or> d = CHR ''-'') name)"

definition isTailwindMarkerClass :: "string \<Rightarrow> bool" where
  "isTailwindMarkerClass cls \<longleftrightarrow>
     (startsWith cls ''group'' \<and> markerRest (drop 5 cls)) \<or>
     (startsWith cls ''peer'' \<and> markerRest (drop 4 cls))"

record categorized =
  twClasses :: "string list"
  markerClasses :: "string list"
  customClasses :: "string list"

text \<open>\<open>twClasses\<close> is a \<open>Set\<close>: \<open>add\<close> leaves it unchanged when the class is in it.\<close>

definition setAdd :: "string list \<Rightarrow> string \<Rightarrow> string list" where
  "setAdd xs x = (if x \<in> set xs then xs else xs @ [x])"

definition categorizeStep :: "conversionEnv \<Rightarrow> categorized \<Rightarrow> string \<Rightarrow> categorized" where
  "categorizeStep env acc cls =
     (if isTailwindMarkerClass cls then acc\<lparr>markerClasses := markerClasses acc @ [cls]\<rparr>
      else if falsy (candidatesToCss env cls) then acc\<lparr>customClasses := customClasses acc @ [cls]\<rparr>
      else acc\<lparr>twClasses := setAdd (twClasses acc) cls\<rparr>)"

definition categorizeClasses :: "conversionEnv \<Rightarrow> string list \<Rightarrow> categorized" where
  "categorizeClasses env classList =
     foldl (categorizeStep env) \<lparr>twClasses = [], markerClasses = [], customClasses = []\<rparr> classList"

text \<open>
  What \<open>rewriteTwFileContentToPanda\<close> does with the class list of a string: categorize,
  stop without a style object (\<open>None\<close>) when no Tailwind class or no style is left,
  otherwise merge the styles of the Tailwind classes and map them to shorthands when
  asked to. The classes to keep are the marker classes followed by the custom ones.
\<close>

definition classListToStyleObject ::
  "conversionEnv \<Rightarrow> bool \<Rightarrow> string list \<Rightarrow> string + style option" where
  "classListToStyleObject env shorthands classList =
     (let tw = twClasses (categorizeClasses env classList) in
      if tw = [] then Inr None
      else
        let styles = twClassListToPandaStyles env tw in
        if styles = [] then Inr None
        else (case mergeCss env (map snd styles) of
                Inl e \<Rightarrow> Inl e
              | Inr merged \<Rightarrow>
                  if shorthands
                  then (case mapToShorthands env merged of
                          Inl e \<Rightarrow> Inl e
                        | Inr styleObject \<Rightarrow> Inr (Some styleObject))
                  else Inr (Some merged)))"

definition classesToKeep :: "conversionEnv \<Rightarrow> string list \<Rightarrow> string list" where
  "classesToKeep env classList =
     markerClasses (categorizeClasses env classList) @ customClasses (categorizeClasses env classList)"

text \<open>
  A small environment for examples. Three classes resolve: \<open>flex\<close>,
  \<open>dark:hover:text-sky-400\<close> (modifiers \<open>dark\<close>, \<open>hover\<close>) and \<open>md:p-4\<close>; the
  conditions \<open>_dark\<close>, \<open>_hover\<close> and \<open>md\<close> are registered; \<open>mergeCss\<close> is stood for
  by a function that collects the style objects in one object under numbered keys.
\<close>

definition sampleParse :: "string \<Rightarrow> twClassInfo option" where
  "sampleParse cls =
     (if cls = ''flex'' then
        Some \<lparr>ci_modifiers = [], ci_value = Some ''flex'', ci_permutations = False,
              ci_isImportant = False\<rparr>
      else if cls = ''dark:hover:text-sky-400'' then
        Some \<lparr>ci_modifiers = [''dark'', ''hover''], ci_value = Some ''sky-400'',
              ci_permutations = False, ci_isImportant = False\<rparr>
      else if cls = ''md:p-4'' then
        Some \<lparr>ci_modifiers = [''md''], ci_value = Some ''4'', ci_permutations = False,
              ci_isImportant = False\<rparr>
      else None)"

definition sampleCss :: "string \<Rightarrow> string option" where
  "sampleCss cls =
     (if cls = ''flex'' then Some ''display: flex;''
      else if cls = ''dark:hover:text-sky-400'' then Some ''color: var(--color-sky-400);''
      else if cls = ''md:p-4'' then Some ''padding: calc(var(--spacing) * 4);''
      else None)"

definition sampleProperties :: "string \<Rightarrow> parsedCssProperty list" where
  "sampleProperties css =
     (if css = ''display: flex;'' then
        [\<lparr>cp_propName = ''display'', cp_tokenPath = ''flex'', cp_rawValue = ''flex''\<rparr>]
      else if css = ''color: var(--color-sky-400);'' then
        [\<lparr>cp_propName = ''color'', cp_tokenPath = ''sky.400'', cp_rawValue = ''#38bdf8''\<rparr>]
      else if css = ''padding: calc(var(--spacing) * 4);'' then
        [\<lparr>cp_propName = ''padding'', cp_tokenPath = ''4'', cp_rawValue = ''1rem''\<rparr>]
      else [])"

definition sampleEnv :: conversionEnv where
  "sampleEnv =
     \<lparr>parseTwClassName = sampleParse,
      candidatesToCss = sampleCss,
      parseCssProperties = sampleProperties,
      propertyValues = (\<lambda>propName. False),
      parseCandidate = (\<lambda>tokenPath. 0),
      conditionsValues = (\<lambda>key. key \<in> set [''_dark'', ''_hover'', ''md'']),
      mergeCss = (\<lambda>styles. Inr (SObject (zip (map (\<lambda>i. [char_of (48 + i)]) [0 ..< length styles]) styles))),
      mapToShorthands = (\<lambda>styles. Inr styles)\<rparr>"

text \<open>The matching token of the class \<open>dark:hover:text-sky-400\<close> in the sample environment.\<close>

definition skyToken :: matchingToken where
  "skyToken =
     \<lparr>mt_propName = ''color'', mt_tokenName = ''sky.400'', mt_rawValue = ''#38bdf8'',
      mt_classInfo = \<lparr>ci_modifiers = [''dark'', ''hover''], ci_value = Some ''sky-400'',
                      ci_permutations = False, ci_isImportant = False\<rparr>\<rparr>"

section \<open>Recipe names (\<open>inferRecipeName\<close>, analyze-project.ts)\<close>

text \<open>\<open>cls.split("-")[0]\<close>: the text before the first dash (the whole text without one).\<close>

definition splitDashHead :: "string \<Rightarrow> string" where
  "splitDashHead cls = takeWhile (\<lambda>c. c \<noteq> CHR ''-'') cls"

text \<open>
  \<open>prefixes.set(prefix, (prefixes.get(prefix) || 0) + 1)\<close> on a \<open>Map\<close>: an existing key
  keeps its position, a new key goes last.
\<close>

fun mapIncrement :: "(string \<times> nat) list \<Rightarrow> string \<Rightarrow> (string \<times> nat) list" where
  "mapIncrement [] k = [(k, 1)]"
| "mapIncrement ((k', n) # m) k =
     (if k' = k then (k', n + 1) # m else (k', n) # mapIncrement m k)"

text \<open>The first loop: \<open>if (prefix && prefix.length > 2)\<close> guards the update.\<close>

fun countPrefixes :: "(string \<times> nat) list \<Rightarrow> string list \<Rightarrow> (string \<times> nat) list" where
  "countPrefixes prefixes [] = prefixes"
| "countPrefixes prefixes (cls # rest) =
     (let prefix = splitDashHead cls in
      if prefix \<noteq> [] \<and> length prefix > 2
      then countPrefixes (mapIncrement prefixes prefix) rest
      else countPrefixes prefixes rest)"

text \<open>The second loop, over the entries of the map, carrying \<open>(maxPrefix, maxCount)\<close>.\<close>

fun findMaxPrefix :: "(string \<times> nat) list \<Rightarrow> string \<times> nat \<Rightarrow> string \<times> nat" where
  "findMaxPrefix [] best = best"
| "findMaxPrefix ((prefix, n) # rest) (maxPrefix, maxCount) =
     (if n > maxCount then findMaxPrefix rest (prefix, n)
      else findMaxPrefix rest (maxPrefix, maxCount))"

definition inferRecipeName :: "extractedPattern list \<Rightarrow> string" where
  "inferRecipeName patterns =
     (let allClasses = concat (map p_classes patterns);
          prefixes = countPrefixes [] allClasses
      in fst (findMaxPrefix prefixes (''component'', 0)))"

text \<open>
  For stating the result: the prefixes the first loop counts (those longer than two
  characters), in order and with repetition; all prefixes, counted or not; and a list
  without its repetitions, in order of first occurrence.
\<close>

definition countedPrefixesOf :: "string list \<Rightarrow> string list" where
  "countedPrefixesOf cs = filter (\<lambda>prefix. length prefix > 2) (map splitDashHead cs)"

definition countedPrefixes :: "extractedPattern list \<Rightarrow> string list" where
  "countedPrefixes patterns = countedPrefixesOf (concat (map p_classes patterns))"

definition allPrefixes :: "extractedPattern list \<Rightarrow> string list" where
  "allPrefixes patterns = map splitDashHead (concat (map p_classes patterns))"

fun firsts :: "'a list \<Rightarrow> 'a list" where
  "firsts [] = []"
| "firsts (x # xs) = x # filter (\<lambda>y. y \<noteq> x) (firsts xs)"

text \<open>Two patterns sharing three of their five classes, and a pattern of two classes.\<close>

definition mkPattern :: "string \<Rightarrow> string list \<Rightarrow> extractedPattern" where
  "mkPattern i cs =
     \<lparr>p_id = i, p_classes = cs, p_styles = SObject [], p_count = 2, p_files = []\<rparr>"

definition clusterA :: extractedPattern where
  "clusterA = mkPattern ''m-2|mt-1|p-4|z-1'' [''p-4'', ''m-2'', ''mt-1'', ''z-1'']"

definition clusterB :: extractedPattern where
  "clusterB = mkPattern ''m-2|mt-1|p-4|z-2'' [''p-4'', ''m-2'', ''mt-1'', ''z-2'']"

definition buttonA :: extractedPattern where
  "buttonA = mkPattern ''btn-lg|flex|rounded'' [''btn-lg'', ''flex'', ''rounded'']"

definition buttonB :: extractedPattern where
  "buttonB = mkPattern ''btn-sm|flex|rounded'' [''btn-sm'', ''flex'', ''rounded'']"

section \<open>Clustering (\<open>groupSimilarPatterns\<close>, \<open>calculateSimilarity\<close>, analyze-project.ts)\<close>

text \<open>
  \<open>new Set(a)\<close> is \<^term>\<open>firsts a\<close>. The quotient is computed on rationals: both sizes
  are array lengths, below \<open>2^32\<close>, and \<open>0.5\<close> is a double, so rounding the quotient to
  a double cannot move it across \<open>0.5\<close>.
\<close>

definition calculateSimilarity :: "string list \<Rightarrow> string list \<Rightarrow> rat" where
  "calculateSimilarity a b =
     (let setA = firsts a;
          setB = firsts b;
          intersection = length (filter (\<lambda>x. x \<in> set setB) setA);
          unionSize = length (firsts (setA @ setB))
      in if unionSize > 0 then of_nat intersection / of_nat unionSize else 0)"

definition similar :: "extractedPattern \<Rightarrow> extractedPattern \<Rightarrow> bool" where
  "similar pattern other \<longleftrightarrow> calculateSimilarity (p_classes pattern) (p_classes other) > 1 / 2"

text \<open>
  The inner loop runs over all patterns, from the first, with the group (\<open>grp\<close>) and the
  \<open>used\<close> set as state; the outer loop carries the groups and the \<open>used\<close> set.
\<close>

fun absorbSimilar ::
  "extractedPattern \<Rightarrow> extractedPattern list \<Rightarrow> extractedPattern list \<times> string list
     \<Rightarrow> extractedPattern list \<times> string list" where
  "absorbSimilar pattern [] (grp, used) = (grp, used)"
| "absorbSimilar pattern (other # rest) (grp, used) =
     (if p_id other \<in> set used then absorbSimilar pattern rest (grp, used)
      else if calculateSimilarity (p_classes pattern) (p_classes other) > 1 / 2
      then absorbSimilar pattern rest (grp @ [other], used @ [p_id other])
      else absorbSimilar pattern rest (grp, used))"

fun groupLoop ::
  "extractedPattern list \<Rightarrow> extractedPattern list \<Rightarrow> extractedPattern list list \<times> string list
     \<Rightarrow> extractedPattern list list \<times> string list" where
  "groupLoop patterns [] (groups, used) = (groups, used)"
| "groupLoop patterns (pattern # rest) (groups, used) =
     (if p_id pattern \<in> set used then groupLoop patterns rest (groups, used)
      else
        (case absorbSimilar pattern patterns ([pattern], used @ [p_id pattern]) of
           (grp, used') \<Rightarrow>
             groupLoop patterns rest
               (if length grp \<ge> 2 then groups @ [grp] else groups, used')))"

definition groupSimilarPatterns :: "extractedPattern list \<Rightarrow> extractedPattern list list" where
  "groupSimilarPatterns patterns = fst (groupLoop patterns patterns ([], []))"

text \<open>
  The clustering as the specification words it: the first pattern opens a group and
  takes every later pattern similar to it; a group of one is dropped; the rest is
  clustered in the same way.
\<close>

function greedyGroups :: "extractedPattern list \<Rightarrow> extractedPattern list list" where
  "greedyGroups [] = []"
| "greedyGroups (pattern # rest) =
     (if filter (similar pattern) rest = [] then []
      else [pattern # filter (similar pattern) rest])
     @ greedyGroups (filter (\<lambda>other. \<not> similar pattern other) rest)"
  by pat_completeness auto
termination
  by (relation "measure length") (auto simp: less_Suc_eq_le)

text \<open>
  Sample patterns: \<open>halfA\<close> and \<open>halfB\<close> share two of four classes (similarity
  1/2); \<open>pairAB\<close> and \<open>pairBC\<close> each share two of three classes with \<open>halfA\<close>
  (2/3) and one of three with each other (1/3).
\<close>

definition halfA :: extractedPattern where
  "halfA = mkPattern ''a|b|c'' [''a'', ''b'', ''c'']"

definition halfB :: extractedPattern where
  "halfB = mkPattern ''a|b|d'' [''a'', ''b'', ''d'']"

definition pairAB :: extractedPattern where
  "pairAB = mkPattern ''a|b'' [''a'', ''b'']"

definition pairBC :: extractedPattern where
  "pairBC = mkPattern ''b|c'' [''b'', ''c'']"

section \<open>Token usage (\<open>extractTokensFromStyles\<close>, analyze-project.ts)\<close>

text \<open>\<open>TokenUsage\<close>, fields prefixed \<open>t_\<close>.\<close>

record tokenUsage =
  t_category :: string
  t_path :: string
  t_value :: string
  t_count :: nat
  t_files :: "string list"

text \<open>
  One match of \<open>/token\(([^,)]+)(?:,\s*([^)]+))?\)/\<close> at the start of a text: the two
  groups and the text after the match. The first group is the longest run without comma
  and closing parenthesis (a shorter one is followed by a character that fits neither
  the comma nor the parenthesis). After a comma, the run up to the next closing
  parenthesis must not be empty; the second group is that run without its leading white
  space, or its last character when it is white space only.
\<close>

definition matchTokenAt :: "string \<Rightarrow> ((string \<times> string option) \<times> string) option" where
  "matchTokenAt s =
     (if \<not> startsWith s ''token('' then None
      else
        let body = drop 6 s;
            g1 = takeWhile (\<lambda>c. c \<noteq> CHR '','' \<and> c \<noteq> CHR '')'') body;
            rest1 = dropWhile (\<lambda>c. c \<noteq> CHR '','' \<and> c \<noteq> CHR '')'') body
        in if g1 = [] then None
           else (case rest1 of
                   [] \<Rightarrow> None
                 | c # after \<Rightarrow>
                     if c = CHR '')'' then Some ((g1, None), after)
                     else
                       let y = takeWhile (\<lambda>d. d \<noteq> CHR '')'') after;
                           rest2 = dropWhile (\<lambda>d. d \<noteq> CHR '')'') after;
                           x = dropWhile isSpace y
                       in if y = [] \<or> rest2 = [] then None
                          else Some ((g1, Some (if x = [] then [last y] else x)), tl rest2)))"

lemma matchTokenAt_shorter:
  "matchTokenAt s = Some (g, rest) \<Longrightarrow> length rest < length s"
proof -
  assume m: "matchTokenAt s = Some (g, rest)"
  have dw: "length (dropWhile P xs) \<le> length xs" for P and xs :: string
    by (induction xs) auto
  let ?P = "\<lambda>c. c \<noteq> CHR '','' \<and> c \<noteq> CHR '')''"
  let ?Q = "\<lambda>d. d \<noteq> CHR '')''"
  let ?rest1 = "dropWhile ?P (drop 6 s)"
  from m have st: "startsWith s ''token(''" by (auto simp: matchTokenAt_def split: if_splits)
  have l1: "length ?rest1 \<le> length s" using dw [of ?P "drop 6 s"] by simp
  from m obtain c after where r1: "?rest1 = c # after"
    by (auto simp: matchTokenAt_def Let_def split: if_splits list.splits)
  have la: "length after < length s" using l1 r1 by simp
  show ?thesis
  proof (cases "c = CHR '')''")
    case True
    then have "rest = after" using m r1 by (auto simp: matchTokenAt_def Let_def split: if_splits)
    then show ?thesis using la by simp
  next
    case False
    then have "rest = tl (dropWhile ?Q after)"
      using m r1 by (auto simp: matchTokenAt_def Let_def split: if_splits)
    moreover have "length (tl (dropWhile ?Q after)) \<le> length after"
      using dw [of ?Q after] by simp
    ultimately show ?thesis using la by simp
  qed
qed

text \<open>
  The \<open>while ((match = tokenPattern.exec(obj)) !== null)\<close> loop: the matches of a text from
  left to right, each search starting where the last match ended.
\<close>

function tokenMatches :: "string \<Rightarrow> (string \<times> string option) list" where
  "tokenMatches [] = []"
| "tokenMatches (c # s) =
     (case matchTokenAt (c # s) of
        Some (g, rest) \<Rightarrow> g # tokenMatches rest
      | None \<Rightarrow> tokenMatches s)"
  by pat_completeness auto
termination
  by (relation "measure length") (auto dest: matchTokenAt_shorter)

text \<open>\<open>tokens.set(key, ...)\<close> for a key the map has: the entry keeps its position.\<close>

fun mapReplace :: "(string \<times> 'v) list \<Rightarrow> string \<Rightarrow> 'v \<Rightarrow> (string \<times> 'v) list" where
  "mapReplace [] k v = []"
| "mapReplace ((k', v') # m) k v = (if k' = k then (k', v) # m else (k', v') # mapReplace m k v)"

text \<open>
  The parts of a token path \<open>tokenPath\<close>: \<open>parts[0] || "unknown"\<close>,
  \<open>parts.slice(1).join(".")\<close> and the key \<open>`${category}.${path}`\<close>, where \<open>parts\<close> is
  \<open>tokenPath.split(".")\<close>.
\<close>

definition tokenCategory :: "string \<Rightarrow> string" where
  "tokenCategory tokenPath =
     (let firstPart = takeWhile (\<lambda>c. c \<noteq> CHR ''.'') tokenPath
      in if firstPart = [] then ''unknown'' else firstPart)"

definition tokenPathRest :: "string \<Rightarrow> string" where
  "tokenPathRest tokenPath = drop 1 (dropWhile (\<lambda>c. c \<noteq> CHR ''.'') tokenPath)"

definition tokenKey :: "string \<Rightarrow> string" where
  "tokenKey tokenPath = tokenCategory tokenPath @ ''.'' @ tokenPathRest tokenPath"

text \<open>The body of the loop for one match, on the map \<open>tokens\<close>.\<close>

definition recordToken ::
  "string \<Rightarrow> (string \<times> tokenUsage) list \<Rightarrow> string \<times> string option
     \<Rightarrow> (string \<times> tokenUsage) list" where
  "recordToken filePath tokens m =
     (let tokenPath = trim (fst m) in
      if tokenPath = [] then tokens
      else (case map_of tokens (tokenKey tokenPath) of
              Some existing \<Rightarrow>
                mapReplace tokens (tokenKey tokenPath)
                  (existing\<lparr>t_count := t_count existing + 1,
                            t_files := (if filePath \<in> set (t_files existing) then t_files existing
                                        else t_files existing @ [filePath])\<rparr>)
            | None \<Rightarrow>
                tokens @ [(tokenKey tokenPath,
                           \<lparr>t_category = tokenCategory tokenPath,
                            t_path = tokenPathRest tokenPath,
                            t_value = (case snd m of None \<Rightarrow> [] | Some f \<Rightarrow> trim f),
                            t_count = 1, t_files = [filePath]\<rparr>)]))"

text \<open>\<open>walkObject\<close>: strings are scanned, objects are walked value by value.\<close>

fun walkObject :: "string \<Rightarrow> style \<Rightarrow> (string \<times> tokenUsage) list \<Rightarrow> (string \<times> tokenUsage) list"
  and walkValues ::
    "string \<Rightarrow> (string \<times> style) list \<Rightarrow> (string \<times> tokenUsage) list \<Rightarrow> (string \<times> tokenUsage) list"
  where
  "walkObject filePath (SString text) tokens = foldl (recordToken filePath) tokens (tokenMatches text)"
| "walkObject filePath (SObject entries) tokens = walkValues filePath entries tokens"
| "walkObject filePath (SOther v) tokens = tokens"
| "walkValues filePath [] tokens = tokens"
| "walkValues filePath (entry # entries) tokens =
     walkValues filePath entries (walkObject filePath (snd entry) tokens)"

definition extractTokensFromStyles ::
  "style \<Rightarrow> string \<Rightarrow> (string \<times> tokenUsage) list \<Rightarrow> (string \<times> tokenUsage) list" where
  "extractTokensFromStyles styles filePath tokens = walkObject filePath styles tokens"

section \<open>Double-precision arithmetic\<close>

text \<open>
  A JavaScript number is a double. A finite double is a rational; \<open>fl64\<close> rounds a
  rational to the nearest double, ties to the even significand (53 bits, exponents from
  -1022, subnormals included; overflow to infinity is left out: every value below is
  far smaller than \<open>2^1024\<close>). \<open>ilog2 x\<close> is the exponent \<open>e\<close> with
  \<open>2^e \<le> x < 2^(e+1)\<close>, for a positive \<open>x\<close>.
\<close>

definition ilog2 :: "rat \<Rightarrow> int" where
  "ilog2 x =
     (if 1 \<le> x then int (floorlog 2 (nat \<lfloor>x\<rfloor>)) - 1
      else - int (floorlog 2 (nat (\<lceil>1 / x\<rceil> - 1))))"

definition roundHalfEven :: "rat \<Rightarrow> int" where
  "roundHalfEven q =
     (let f = \<lfloor>q\<rfloor>; r = q - of_int f
      in if r < 1 / 2 then f else if 1 / 2 < r then f + 1 else if even f then f else f + 1)"

definition fl64 :: "rat \<Rightarrow> rat" where
  "fl64 x =
     (if x = 0 then 0
      else
        let e = max (ilog2 \<bar>x\<bar>) (- 1022);
            ulp = 2 powi (e - 52)
        in of_int (roundHalfEven (x / ulp)) * ulp)"

text \<open>The operations \<open>+\<close>, \<open>*\<close>, \<open>/\<close> on doubles, and \<open>Math.ceil\<close>.\<close>

definition jsAdd :: "rat \<Rightarrow> rat \<Rightarrow> rat" where
  "jsAdd a b = fl64 (a + b)"

definition jsMul :: "rat \<Rightarrow> rat \<Rightarrow> rat" where
  "jsMul a b = fl64 (a * b)"

definition jsDiv :: "rat \<Rightarrow> rat \<Rightarrow> rat" where
  "jsDiv a b = fl64 (a / b)"

definition mathCeil :: "rat \<Rightarrow> rat" where
  "mathCeil a = of_int \<lceil>a\<rceil>"

section \<open>Project analysis (\<open>analyzeProject\<close>, analyze-project.ts)\<close>

text \<open>
  The effort estimate of the summary, from the number of unique unconverted classes and
  the number of detected patterns: \<open>size * 1 + length * 0.5\<close>, then
  \<open>Math.ceil((estimatedMinutes / 60) * 10) / 10\<close>.
\<close>

definition estimatedMinutes :: "nat \<Rightarrow> nat \<Rightarrow> rat" where
  "estimatedMinutes unconverted patterns =
     jsAdd (jsMul (of_nat unconverted) 1) (jsMul (of_nat patterns) (1 / 2))"

definition estimatedEffortHours :: "nat \<Rightarrow> nat \<Rightarrow> rat" where
  "estimatedEffortHours unconverted patterns =
     jsDiv (mathCeil (jsMul (jsDiv (estimatedMinutes unconverted patterns) 60) 10)) 10"

text \<open>
  Rounding to one decimal as the specification words it, to the nearest tenth
  (\<open>Math.round(h * 10) / 10\<close>), for comparison.
\<close>

definition roundedToOneDecimal :: "rat \<Rightarrow> rat" where
  "roundedToOneDecimal h = of_int \<lfloor>h * 10 + 1 / 2\<rfloor> / 10"

text \<open>\<open>FileAnalysis\<close> (its \<open>patterns\<close> field is always empty and left out).\<close>

record fileAnalysis =
  fa_filePath :: string
  fa_classes :: "string list"
  fa_convertedClasses :: "string list"
  fa_unconvertedClasses :: "string list"

text \<open>
  The collaborators of the analysis: the conversion; \<open>readFileSync\<close>, which throws
  (\<open>Inl\<close>) or returns the content; \<open>relative(cwd, filePath)\<close>; and the texts the four
  class-bearing patterns of \<open>extractClassesFromFile\<close> capture in a content, pattern by
  pattern (the scan itself is not modelled: every theorem holds whatever it finds).
\<close>

record projectEnv =
  conversion :: conversionEnv
  readFileSync :: "string \<Rightarrow> string + string"
  relativePath :: "string \<Rightarrow> string"
  classCaptures :: "string \<Rightarrow> string list"

text \<open>\<open>text.split(/\s+/).filter(Boolean)\<close>: the words of a text.\<close>

fun splitWords :: "string \<Rightarrow> string \<Rightarrow> string list" where
  "splitWords [] word = (if word = [] then [] else [word])"
| "splitWords (c # s) word =
     (if isSpace c then (if word = [] then splitWords s [] else word # splitWords s [])
      else splitWords s (word @ [c]))"

text \<open>
  \<open>extractClassesFromFile\<close>: the classes without repetitions; a class that is empty or
  starts with \<open>{\<close> or \<open>$\<close> is skipped; the others are converted when the resolver gives
  CSS for them, unconverted otherwise.
\<close>

definition extractClassesFromFile ::
  "projectEnv \<Rightarrow> string \<Rightarrow> string + (string list \<times> string list \<times> string list)" where
  "extractClassesFromFile env filePath =
     (case readFileSync env filePath of
        Inl e \<Rightarrow> Inl e
      | Inr content \<Rightarrow>
          let allClasses = firsts (concat (map (\<lambda>t. splitWords t []) (classCaptures env content)));
              utilities = filter (\<lambda>cls. cls \<noteq> [] \<and> \<not> startsWith cls ''{'' \<and> \<not> startsWith cls ''$'')
                            allClasses;
              converted = filter (\<lambda>cls. \<not> falsy (candidatesToCss (conversion env) cls)) utilities;
              unconverted = filter (\<lambda>cls. falsy (candidatesToCss (conversion env) cls)) utilities
          in Inr (allClasses, converted, unconverted))"

text \<open>\<open>generatePatternId\<close>: \<open>[...classes].sort().join("|")\<close>, sorted by code units.\<close>

fun joinWith :: "string \<Rightarrow> string list \<Rightarrow> string" where
  "joinWith sep [] = []"
| "joinWith sep [x] = x"
| "joinWith sep (x # y # rest) = x @ sep @ joinWith sep (y # rest)"

definition generatePatternId :: "string list \<Rightarrow> string" where
  "generatePatternId classes = joinWith ''|'' (sort classes)"

text \<open>
  The styles of the converted classes of a file: \<open>None\<close> when there is no converted class
  or no style (nothing is tracked), \<open>Inl\<close> when \<open>mergeCss\<close> or \<open>mapToShorthands\<close> throws.
\<close>

definition fileStyles :: "projectEnv \<Rightarrow> bool \<Rightarrow> string list \<Rightarrow> string + style option" where
  "fileStyles env shorthands converted =
     (if converted = [] then Inr None
      else
        let styles = twClassListToPandaStyles (conversion env) (firsts converted) in
        if styles = [] then Inr None
        else (case mergeCss (conversion env) (map snd styles) of
                Inl e \<Rightarrow> Inl e
              | Inr merged \<Rightarrow>
                  if shorthands
                  then (case mapToShorthands (conversion env) merged of
                          Inl e \<Rightarrow> Inl e
                        | Inr finalStyles \<Rightarrow> Inr (Some finalStyles))
                  else Inr (Some merged)))"

text \<open>"Track class patterns": the update of the map \<open>classPatterns\<close>.\<close>

definition trackPattern ::
  "(string \<times> extractedPattern) list \<Rightarrow> string \<Rightarrow> string list \<Rightarrow> style
     \<Rightarrow> (string \<times> extractedPattern) list" where
  "trackPattern patternMap relPath converted finalStyles =
     (let patternId = generatePatternId converted in
      case map_of patternMap patternId of
        Some existing \<Rightarrow>
          mapReplace patternMap patternId
            (existing\<lparr>p_count := p_count existing + 1,
                      p_files := (if relPath \<in> set (p_files existing) then p_files existing
                                  else p_files existing @ [relPath])\<rparr>)
      | None \<Rightarrow>
          patternMap @ [(patternId, \<lparr>p_id = patternId, p_classes = converted,
                                        p_styles = finalStyles, p_count = 1,
                                        p_files = [relPath]\<rparr>)])"

text \<open>
  The state of the loop over the files: the three collections, and the lines written by
  \<open>console.warn\<close>.
\<close>

record analysisState =
  fileAnalyses :: "fileAnalysis list"
  allTokens :: "(string \<times> tokenUsage) list"
  classPatterns :: "(string \<times> extractedPattern) list"
  warnings :: "string list"

text \<open>
  What the \<open>try\<close> block computes before it changes any collection: \<open>Inl\<close> is the error
  thrown. Every call that may throw comes before the first update, so a file that fails
  leaves the three collections as they were.
\<close>

definition readFileForAnalysis ::
  "projectEnv \<Rightarrow> bool \<Rightarrow> string
     \<Rightarrow> string + (string list \<times> string list \<times> string list \<times> style option)" where
  "readFileForAnalysis env shorthands filePath =
     (case extractClassesFromFile env filePath of
        Inl e \<Rightarrow> Inl e
      | Inr (classes, converted, unconverted) \<Rightarrow>
          (case fileStyles env shorthands converted of
             Inl e \<Rightarrow> Inl e
           | Inr tracked \<Rightarrow> Inr (classes, converted, unconverted, tracked)))"

definition analyzeFile :: "projectEnv \<Rightarrow> bool \<Rightarrow> analysisState \<Rightarrow> string \<Rightarrow> analysisState" where
  "analyzeFile env shorthands st filePath =
     (case readFileForAnalysis env shorthands filePath of
        Inl e \<Rightarrow>
          st\<lparr>warnings := warnings st @ [''Warning: Could not analyze '' @ filePath @ '': '' @ e]\<rparr>
      | Inr (classes, converted, unconverted, tracked) \<Rightarrow>
          st\<lparr>allTokens :=
               (case tracked of
                  None \<Rightarrow> allTokens st
                | Some finalStyles \<Rightarrow>
                    extractTokensFromStyles finalStyles (relativePath env filePath) (allTokens st)),
             classPatterns :=
               (case tracked of
                  None \<Rightarrow> classPatterns st
                | Some finalStyles \<Rightarrow>
                    trackPattern (classPatterns st) (relativePath env filePath) converted finalStyles),
             fileAnalyses :=
               fileAnalyses st @ [\<lparr>fa_filePath = relativePath env filePath, fa_classes = classes,
                                    fa_convertedClasses = converted,
                                    fa_unconvertedClasses = unconverted\<rparr>]\<rparr>)"

text \<open>\<open>ProjectAnalysis\<close> and its summary.\<close>

record summary =
  totalFiles :: nat
  totalClasses :: nat
  uniqueClasses :: nat
  convertedClasses :: nat
  unconvertedClasses :: nat
  detectedPatterns :: nat
  estimatedEffortHoursOf :: rat

record projectAnalysis =
  pa_files :: "fileAnalysis list"
  pa_tokens :: "tokenUsage list"
  pa_patterns :: "extractedPattern list"
  pa_summary :: summary

text \<open>
  \<open>.sort((a, b) => b.count - a.count)\<close> is a stable sort by falling count. The options
  are \<open>shorthands\<close> and \<open>minPatternCount\<close>; the file paths are what \<open>getFilesToAnalyze\<close>
  found. The result is the analysis and the lines written to the console.
\<close>

definition detectPatterns :: "int \<Rightarrow> (string \<times> extractedPattern) list \<Rightarrow> extractedPattern list" where
  "detectPatterns minPatternCount patternMap =
     sort_key (\<lambda>p. - int (p_count p))
       (filter (\<lambda>p. minPatternCount \<le> int (p_count p)) (map snd patternMap))"

definition analyzeFiles :: "projectEnv \<Rightarrow> bool \<Rightarrow> string list \<Rightarrow> analysisState" where
  "analyzeFiles env shorthands filePaths =
     foldl (analyzeFile env shorthands)
       \<lparr>fileAnalyses = [], allTokens = [], classPatterns = [], warnings = []\<rparr> filePaths"

definition analyzeProject ::
  "projectEnv \<Rightarrow> bool \<Rightarrow> int \<Rightarrow> string list \<Rightarrow> projectAnalysis \<times> string list" where
  "analyzeProject env shorthands minPatternCount filePaths =
     (let st = analyzeFiles env shorthands filePaths;
          patterns = detectPatterns minPatternCount (classPatterns st);
          allClasses = concat (map fa_classes (fileAnalyses st));
          uniqueConverted = firsts (concat (map fa_convertedClasses (fileAnalyses st)));
          uniqueUnconverted = firsts (concat (map fa_unconvertedClasses (fileAnalyses st)))
      in (\<lparr>pa_files = fileAnalyses st,
           pa_tokens = sort_key (\<lambda>t. - int (t_count t)) (map snd (allTokens st)),
           pa_patterns = patterns,
           pa_summary =
             \<lparr>totalFiles = length (fileAnalyses st),
              totalClasses = length allClasses,
              uniqueClasses = length (firsts allClasses),
              convertedClasses = length uniqueConverted,
              unconvertedClasses = length uniqueUnconverted,
              detectedPatterns = length patterns,
              estimatedEffortHoursOf =
                estimatedEffortHours (length uniqueUnconverted) (length patterns)\<rparr>\<rparr>,
          warnings st))"

text \<open>
  For stating results: the pattern id a file is observed with (\<open>None\<close> when the file
  fails or nothing is tracked for it), and how often an id is observed in a file list.
\<close>

definition observedPattern :: "projectEnv \<Rightarrow> bool \<Rightarrow> string \<Rightarrow> string option" where
  "observedPattern env shorthands filePath =
     (case readFileForAnalysis env shorthands filePath of
        Inl e \<Rightarrow> None
      | Inr (classes, converted, unconverted, tracked) \<Rightarrow>
          (case tracked of None \<Rightarrow> None | Some finalStyles \<Rightarrow> Some (generatePatternId converted)))"

definition observers :: "projectEnv \<Rightarrow> bool \<Rightarrow> string list \<Rightarrow> string \<Rightarrow> string list" where
  "observers env shorthands filePaths patternId =
     filter (\<lambda>filePath. observedPattern env shorthands filePath = Some patternId) filePaths"

text \<open>
  For the proofs about the map \<open>classPatterns\<close>: what the loop tracks for a file; the
  invariant of the map (no key twice, every pattern under its own id); the count and the
  files the map has for an id; and two states with the same three collections.
\<close>

definition trackedOf :: "projectEnv \<Rightarrow> bool \<Rightarrow> string \<Rightarrow> (string list \<times> style) option" where
  "trackedOf env sh f =
     (case readFileForAnalysis env sh f of
        Inl e \<Rightarrow> None
      | Inr (classes, converted, unconverted, tracked) \<Rightarrow>
          (case tracked of None \<Rightarrow> None | Some finalStyles \<Rightarrow> Some (converted, finalStyles)))"

definition patInv :: "(string \<times> extractedPattern) list \<Rightarrow> bool" where
  "patInv m \<longleftrightarrow> distinct (map fst m) \<and> (\<forall>(k, p) \<in> set m. p_id p = k)"

definition countOf :: "(string \<times> extractedPattern) list \<Rightarrow> string \<Rightarrow> nat" where
  "countOf m h = (case map_of m h of None \<Rightarrow> 0 | Some p \<Rightarrow> p_count p)"

definition filesOf :: "(string \<times> extractedPattern) list \<Rightarrow> string \<Rightarrow> string list" where
  "filesOf m h = (case map_of m h of None \<Rightarrow> [] | Some p \<Rightarrow> p_files p)"

definition sameCollections :: "analysisState \<Rightarrow> analysisState \<Rightarrow> bool" where
  "sameCollections a b \<longleftrightarrow>
     fileAnalyses a = fileAnalyses b \<and> allTokens a = allTokens b \<and> classPatterns a = classPatterns b"

text \<open>
  A sample project of four files under \<open>/app/\<close>: \<open>a.tsx\<close> and \<open>b.tsx\<close> use the same
  two Tailwind classes, \<open>c.tsx\<close> uses \<open>flex\<close>, and \<open>bad.tsx\<close> cannot be read.
\<close>

definition sampleRead :: "string \<Rightarrow> string + string" where
  "sampleRead filePath =
     (if filePath = ''/app/a.tsx'' then Inr ''A''
      else if filePath = ''/app/b.tsx'' then Inr ''B''
      else if filePath = ''/app/c.tsx'' then Inr ''C''
      else Inl ''Error: ENOENT: no such file or directory'')"

definition sampleCaptures :: "string \<Rightarrow> string list" where
  "sampleCaptures content =
     (if content = ''A'' then [''md:p-4 dark:hover:text-sky-400 my-card'']
      else if content = ''B'' then [''dark:hover:text-sky-400   md:p-4'', ''btn'']
      else if content = ''C'' then [''flex'']
      else [])"

definition sampleProject :: projectEnv where
  "sampleProject =
     \<lparr>conversion = sampleEnv,
      readFileSync = sampleRead,
      relativePath = (\<lambda>filePath. if startsWith filePath ''/app/'' then drop 5 filePath else filePath),
      classCaptures = sampleCaptures\<rparr>"

text \<open>The invariant of a token usage, and the two usages of the sample project.\<close>

definition usageOk :: "tokenUsage \<Rightarrow> bool" where
  "usageOk u \<longleftrightarrow> distinct (t_files u) \<and> length (t_files u) \<le> t_count u \<and> 1 \<le> t_count u"

definition sampleFiles :: "string list" where
  "sampleFiles = [''/app/a.tsx'', ''/app/bad.tsx'', ''/app/b.tsx'', ''/app/c.tsx'']"

definition spacingUsage :: tokenUsage where
  "spacingUsage = \<lparr>t_category = ''spacing'', t_path = ''4'', t_value = ''1rem'', t_count = 2,
                    t_files = [''a.tsx'', ''b.tsx'']\<rparr>"

definition skyUsage :: tokenUsage where
  "skyUsage = \<lparr>t_category = ''colors'', t_path = ''sky.400'', t_value = ''#38bdf8'', t_count = 2,
                t_files = [''a.tsx'', ''b.tsx'']\<rparr>"

section \<open>Batch processing (\<open>batchProcess\<close>, \<open>processFile\<close>, batch-processor.ts)\<close>

datatype fileStatus = Success | Error | Skipped | Unchanged

text \<open>\<open>BatchFileResult\<close>, fields prefixed \<open>r_\<close>, without the duration (a clock reading).\<close>

record batchFileResult =
  r_inputPath :: string
  r_outputPath :: string
  r_status :: fileStatus
  r_original :: "string option"
  r_converted :: "string option"
  r_error :: "string option"
  r_unconvertedClasses :: "string list option"

text \<open>
  The collaborators of \<open>processFile\<close>: \<open>join\<close>, \<open>extname\<close> and \<open>basename\<close> of the path
  library; \<open>readFileSync\<close>; the HTML conversion (\<open>rewriteHtmlToPanda\<close> followed by
  \<open>maybePretty\<close>: the output and the unconverted classes) and the TypeScript conversion
  (\<open>rewriteTwFileContentToPanda\<close>: the output), each of which may throw; and the writing of
  the output (\<open>mkdir\<close>, \<open>writeFile\<close>), \<open>Some\<close> error when it throws.
\<close>

record batchEnv =
  joinPath :: "string \<Rightarrow> string \<Rightarrow> string"
  extname :: "string \<Rightarrow> string"
  basename :: "string \<Rightarrow> string \<Rightarrow> string"
  readFile :: "string \<Rightarrow> string + string"
  convertHtml :: "string \<Rightarrow> bool \<Rightarrow> string \<Rightarrow> string + (string \<times> string list)"
  convertTs :: "string \<Rightarrow> string \<Rightarrow> bool \<Rightarrow> string + string"
  writeOutput :: "string \<Rightarrow> string \<Rightarrow> string option"

record processFileOptions =
  o_cwd :: string
  o_outDir :: "string option"
  o_shorthands :: bool
  o_dryRun :: bool
  o_htmlExtensions :: "string list"
  o_tsExtensions :: "string list"

definition toLowerCase :: "char \<Rightarrow> char" where
  "toLowerCase c = (if isUpper c then char_of ((of_char c :: nat) + 32) else c)"

text \<open>
  \<open>outputPath.replace(/\.(html?|htm)$/i, ".tsx")\<close>: a final \<open>.html\<close> or \<open>.htm\<close>, in any
  case of letters, becomes \<open>.tsx\<close>.
\<close>

definition endsWith :: "string \<Rightarrow> string \<Rightarrow> bool" where
  "endsWith s suffix \<longleftrightarrow> startsWith (rev s) (rev suffix)"

definition replaceHtmlExtension :: "string \<Rightarrow> string" where
  "replaceHtmlExtension path =
     (let lower = map toLowerCase path in
      if endsWith lower ''.html'' then take (length path - 5) path @ ''.tsx''
      else if endsWith lower ''.htm'' then take (length path - 4) path @ ''.tsx''
      else path)"

text \<open>
  \<open>processFile\<close>. The body of the \<open>try\<close> block is \<open>tryProcessFile\<close>, \<open>Inl\<close> when it
  throws; the \<open>catch\<close> turns the error into a result of status \<open>Error\<close>. An empty
  \<open>outDir\<close> is falsy, like an absent one.
\<close>

definition outputPathOf :: "batchEnv \<Rightarrow> processFileOptions \<Rightarrow> string \<Rightarrow> string" where
  "outputPathOf env opts filePath =
     (let ext = map toLowerCase (extname env filePath);
          outputPath = (if falsy (o_outDir opts) then filePath
                        else joinPath env (the (o_outDir opts)) filePath)
      in if ext \<in> set (o_htmlExtensions opts) then replaceHtmlExtension outputPath else outputPath)"

definition tryProcessFile :: "batchEnv \<Rightarrow> processFileOptions \<Rightarrow> string \<Rightarrow> string + batchFileResult" where
  "tryProcessFile env opts filePath =
     (let absolutePath = joinPath env (o_cwd opts) filePath;
          ext = map toLowerCase (extname env filePath);
          outputPath = outputPathOf env opts filePath;
          skipped = \<lparr>r_inputPath = filePath, r_outputPath = outputPath, r_status = Skipped,
                     r_original = None, r_converted = None, r_error = None,
                     r_unconvertedClasses = None\<rparr>
      in case readFile env absolutePath of
           Inl e \<Rightarrow> Inl e
         | Inr content \<Rightarrow>
             (case (if ext \<in> set (o_htmlExtensions opts)
                    then (case convertHtml env content (o_shorthands opts) (basename env filePath ext) of
                            Inl e \<Rightarrow> Inl e
                          | Inr (output, unconverted) \<Rightarrow> Inr (Some (output, unconverted)))
                    else if ext \<in> set (o_tsExtensions opts)
                    then (case convertTs env content filePath (o_shorthands opts) of
                            Inl e \<Rightarrow> Inl e
                          | Inr output \<Rightarrow> Inr (Some (output, [])))
                    else Inr None) of
                Inl e \<Rightarrow> Inl e
              | Inr None \<Rightarrow> Inr skipped
              | Inr (Some (converted, unconverted)) \<Rightarrow>
                  if converted = content
                  then Inr (skipped\<lparr>r_status := Unchanged, r_original := Some content,
                                    r_converted := Some converted\<rparr>)
                  else (case (if o_dryRun opts then None
                              else writeOutput env (joinPath env (o_cwd opts) outputPath) converted) of
                          Some e \<Rightarrow> Inl e
                        | None \<Rightarrow>
                            Inr (skipped\<lparr>r_status := Success, r_original := Some content,
                                         r_converted := Some converted,
                                         r_unconvertedClasses := Some unconverted\<rparr>))))"

definition processFile :: "batchEnv \<Rightarrow> processFileOptions \<Rightarrow> string \<Rightarrow> batchFileResult" where
  "processFile env opts filePath =
     (case tryProcessFile env opts filePath of
        Inr result \<Rightarrow> result
      | Inl e \<Rightarrow>
          \<lparr>r_inputPath = filePath, r_outputPath = outputPathOf env opts filePath, r_status = Error,
           r_original = None, r_converted = None, r_error = Some e,
           r_unconvertedClasses = None\<rparr>)"

text \<open>
  \<open>chunkArray\<close>: \<open>for (let i = 0; i < array.length; i += size)\<close>. With a \<open>size\<close> (\<open>chunkSize\<close>) of zero the
  index never moves: on a non-empty array the loop does not end, which is \<open>None\<close>.
\<close>

function chunkArray :: "'a list \<Rightarrow> nat \<Rightarrow> 'a list list option" where
  "chunkArray array chunkSize =
     (if array = [] then Some []
      else if chunkSize = 0 then None
      else (case chunkArray (drop chunkSize array) chunkSize of
              None \<Rightarrow> None
            | Some chunks \<Rightarrow> Some (take chunkSize array # chunks)))"
  by pat_completeness auto
termination
  by (relation "measure (\<lambda>(array, chunkSize). length array)") auto

declare chunkArray.simps [simp del]

text \<open>
  \<open>BatchResult\<close> without the total duration. \<open>batchProcess\<close> on the files the glob
  found: the chunks are processed one after the other and each chunk's results are
  appended in the order of its files. \<open>None\<close>: the call does not return.
\<close>

record batchSummary =
  s_total :: nat
  s_success :: nat
  s_errors :: nat
  s_skipped :: nat
  s_unchanged :: nat

record batchResult =
  b_files :: "batchFileResult list"
  b_summary :: batchSummary

definition summarize :: "batchFileResult list \<Rightarrow> batchSummary" where
  "summarize results =
     \<lparr>s_total = length results,
      s_success = length (filter (\<lambda>r. r_status r = Success) results),
      s_errors = length (filter (\<lambda>r. r_status r = Error) results),
      s_skipped = length (filter (\<lambda>r. r_status r = Skipped) results),
      s_unchanged = length (filter (\<lambda>r. r_status r = Unchanged) results)\<rparr>"

definition batchProcess ::
  "batchEnv \<Rightarrow> processFileOptions \<Rightarrow> nat \<Rightarrow> string list \<Rightarrow> batchResult option" where
  "batchProcess env opts concurrency files =
     (if files = [] then
        Some \<lparr>b_files = [],
              b_summary = \<lparr>s_total = 0, s_success = 0, s_errors = 0, s_skipped = 0,
                           s_unchanged = 0\<rparr>\<rparr>
      else (case chunkArray files concurrency of
              None \<Rightarrow> None
            | Some chunks \<Rightarrow>
                let results = concat (map (map (processFile env opts)) chunks)
                in Some \<lparr>b_files = results, b_summary = summarize results\<rparr>))"

text \<open>A sample batch: \<open>page.html\<close> converts, \<open>gone.tsx\<close> cannot be read, \<open>app.tsx\<close> converts.\<close>

definition sampleBatch :: batchEnv where
  "sampleBatch =
     \<lparr>joinPath = (\<lambda>a b. a @ ''/'' @ b),
      extname = (\<lambda>path. dropWhile (\<lambda>c. c \<noteq> CHR ''.'') path),
      basename = (\<lambda>path ext. take (length path - length ext) path),
      readFile = (\<lambda>path. if path = ''/app/gone.tsx''
                           then Inl ''ENOENT: no such file or directory'' else Inr ''<div/>''),
      convertHtml = (\<lambda>content shorthands name. Inr (''export const Page = () => <div/>'', [''my-card''])),
      convertTs = (\<lambda>content path shorthands. Inr ''import { css } from ./styled-system/css''),
      writeOutput = (\<lambda>path content. None)\<rparr>"

definition sampleOptions :: processFileOptions where
  "sampleOptions =
     \<lparr>o_cwd = ''/app'', o_outDir = None, o_shorthands = False, o_dryRun = True,
      o_htmlExtensions = [''.html'', ''.htm''],
      o_tsExtensions = [''.ts'', ''.tsx'', ''.js'', ''.jsx'']\<rparr>"

section \<open>The design-system cache (\<open>createTailwindContext\<close>, tw-context.ts)\<close>

text \<open>
  The argument of \<open>createTailwindContext\<close>: a string, a configuration object, or anything
  else (absent, \<open>null\<close>). The CSS text derived from it is the key of the cache.
\<close>

datatype cssOrConfig = CssText string | ConfigObject | NoArgument

definition DEFAULT_TAILWIND_CSS :: string where
  "DEFAULT_TAILWIND_CSS = ''@import '' @ [CHR 0x22] @ ''tailwindcss'' @ [CHR 0x22] @ '';''"

definition derivedCss :: "cssOrConfig \<Rightarrow> string" where
  "derivedCss arg =
     (case arg of
        CssText text \<Rightarrow>
          if includesStr text ''@import'' \<or> includesStr text ''@tailwind'' \<or> includesStr text ''@theme''
          then text else DEFAULT_TAILWIND_CSS
      | ConfigObject \<Rightarrow> DEFAULT_TAILWIND_CSS
      | NoArgument \<Rightarrow> DEFAULT_TAILWIND_CSS)"

text \<open>
  The two module variables, and a counter of the calls of
  \<open>__unstable__loadDesignSystem\<close> made so far. A context object is the design system
  the loader built together with the number of the call that built it: two context
  objects are the same object exactly when they are equal. The loader is a function of
  the call number and the CSS text; \<open>Inl\<close> when it throws.
\<close>

record 'ds contextCache =
  cachedDesignSystem :: "(nat \<times> 'ds) option"
  cachedCss :: "string option"
  constructions :: nat

definition initialCache :: "'ds contextCache" where
  "initialCache = \<lparr>cachedDesignSystem = None, cachedCss = None, constructions = 0\<rparr>"

definition createTailwindContext ::
  "(nat \<Rightarrow> string \<Rightarrow> string + 'ds) \<Rightarrow> 'ds contextCache \<Rightarrow> cssOrConfig
     \<Rightarrow> (string + (nat \<times> 'ds)) \<times> 'ds contextCache" where
  "createTailwindContext loadDesignSystem cache arg =
     (let css = derivedCss arg in
      if cachedDesignSystem cache \<noteq> None \<and> cachedCss cache = Some css
      then (Inr (the (cachedDesignSystem cache)), cache)
      else (case loadDesignSystem (constructions cache) css of
              Inl e \<Rightarrow> (Inl e, cache\<lparr>constructions := constructions cache + 1\<rparr>)
            | Inr designSystem \<Rightarrow>
                (Inr (constructions cache, designSystem),
                 \<lparr>cachedDesignSystem = Some (constructions cache, designSystem),
                  cachedCss = Some css,
                  constructions = constructions cache + 1\<rparr>)))"

definition clearTailwindContextCache :: "'ds contextCache \<Rightarrow> 'ds contextCache" where
  "clearTailwindContextCache cache = cache\<lparr>cachedDesignSystem := None, cachedCss := None\<rparr>"

text \<open>A sequence of calls, each completed before the next starts.\<close>

datatype cacheCall = Create cssOrConfig | Clear

fun runCalls ::
  "(nat \<Rightarrow> string \<Rightarrow> string + 'ds) \<Rightarrow> 'ds contextCache \<Rightarrow> cacheCall list \<Rightarrow> 'ds contextCache" where
  "runCalls loadDesignSystem cache [] = cache"
| "runCalls loadDesignSystem cache (Create arg # calls) =
     runCalls loadDesignSystem (snd (createTailwindContext loadDesignSystem cache arg)) calls"
| "runCalls loadDesignSystem cache (Clear # calls) =
     runCalls loadDesignSystem (clearTailwindContextCache cache) calls"

text \<open>A sample loader: it fails on a text without \<open>@import\<close> and returns the text otherwise.\<close>

definition sampleLoader :: "nat \<Rightarrow> string \<Rightarrow> string + string" where
  "sampleLoader n css = (if includesStr css ''@import'' then Inr css else Inl ''Cannot load'')"

text \<open>The two variables are set together and cleared together.\<close>

definition cacheInv :: "'ds contextCache \<Rightarrow> bool" where
  "cacheInv c \<longleftrightarrow> (cachedDesignSystem c = None \<longleftrightarrow> cachedCss c = None)"

text \<open>The cache after a first call without argument under the sample loader.\<close>

definition sampleCache :: "string contextCache" where
  "sampleCache =
     \<lparr>cachedDesignSystem = Some (0, DEFAULT_TAILWIND_CSS), cachedCss = Some DEFAULT_TAILWIND_CSS,
      constructions = 1\<rparr>"

section \<open>Theorems\<close>

subsection \<open>Recipe names\<close>

lemma keys_mapIncrement:
  "map fst (mapIncrement m k) = (if k \<in> set (map fst m) then map fst m else map fst m @ [k])"
  by (induction m k rule: mapIncrement.induct) auto

lemma map_of_mapIncrement:
  "map_of (mapIncrement m k)
     = (map_of m)(k \<mapsto> (case map_of m k of None \<Rightarrow> 1 | Some n \<Rightarrow> n + 1))"
  by (induction m k rule: mapIncrement.induct) (auto simp: fun_eq_iff)

lemma set_firsts: "set (firsts xs) = set xs"
  by (induction xs) auto

lemma distinct_firsts: "distinct (firsts xs)"
  by (induction xs) (auto simp: set_firsts)

lemma keys_countPrefixes:
  "map fst (countPrefixes m cs) =
     map fst m @ filter (\<lambda>k. k \<notin> set (map fst m)) (firsts (countedPrefixesOf cs))"
proof (induction cs arbitrary: m)
  case Nil
  then show ?case by (simp add: countedPrefixesOf_def)
next
  case (Cons c cs)
  show ?case
  proof (cases "length (splitDashHead c) > 2")
    case False
    then show ?thesis using Cons by (simp add: countedPrefixesOf_def Let_def)
  next
    case True
    then have ne: "splitDashHead c \<noteq> []" by auto
    have el: "countedPrefixesOf (c # cs) = splitDashHead c # countedPrefixesOf cs"
      using True by (simp add: countedPrefixesOf_def)
    show ?thesis
      using True ne Cons [of "mapIncrement m (splitDashHead c)"]
      by (auto simp: el keys_mapIncrement Let_def conj_commute intro!: filter_cong)
  qed
qed

lemma map_of_countPrefixes:
  "map_of (countPrefixes m cs) k =
     (if k \<in> set (countedPrefixesOf cs)
      then Some ((case map_of m k of None \<Rightarrow> 0 | Some n \<Rightarrow> n)
                 + count_list (countedPrefixesOf cs) k)
      else map_of m k)"
proof (induction cs arbitrary: m)
  case Nil
  then show ?case by (simp add: countedPrefixesOf_def)
next
  case (Cons c cs)
  show ?case
  proof (cases "length (splitDashHead c) > 2")
    case False
    then show ?thesis using Cons by (simp add: countedPrefixesOf_def Let_def)
  next
    case True
    then have ne: "splitDashHead c \<noteq> []" by auto
    have el: "countedPrefixesOf (c # cs) = splitDashHead c # countedPrefixesOf cs"
      using True by (simp add: countedPrefixesOf_def)
    show ?thesis
      using True ne Cons [of "mapIncrement m (splitDashHead c)"]
      by (auto simp: el map_of_mapIncrement Let_def split: option.splits)
  qed
qed

lemma takeWhile_filter:
  "(\<And>y. \<not> P y \<Longrightarrow> Q y) \<Longrightarrow> takeWhile P (filter Q ys) = filter Q (takeWhile P ys)"
  by (induction ys) auto

lemma set_takeWhile_firsts:
  "set (takeWhile (\<lambda>y. y \<noteq> r) (firsts xs)) = set (takeWhile (\<lambda>y. y \<noteq> r) xs)"
proof (induction xs)
  case Nil
  then show ?case by simp
next
  case (Cons x xs)
  show ?case
  proof (cases "x = r")
    case True
    then show ?thesis by simp
  next
    case False
    have "takeWhile (\<lambda>y. y \<noteq> r) (filter (\<lambda>y. y \<noteq> x) (firsts xs))
          = filter (\<lambda>y. y \<noteq> x) (takeWhile (\<lambda>y. y \<noteq> r) (firsts xs))"
      using False by (intro takeWhile_filter) auto
    then show ?thesis using False Cons by auto
  qed
qed

lemma takeWhile_keys:
  "distinct (map fst m) \<Longrightarrow> (r, rc) \<in> set m \<Longrightarrow>
   map fst (takeWhile (\<lambda>e. e \<noteq> (r, rc)) m) = takeWhile (\<lambda>k. k \<noteq> r) (map fst m)"
proof (induction m)
  case Nil
  then show ?case by simp
next
  case (Cons e m)
  obtain k n where e: "e = (k, n)" by (cases e)
  show ?case
  proof (cases "e = (r, rc)")
    case True
    then show ?thesis by simp
  next
    case False
    then have in_m: "(r, rc) \<in> set m" using Cons.prems by auto
    then have "r \<in> fst ` set m" by force
    then have "k \<noteq> r" using Cons.prems(1) e by auto
    then show ?thesis using False Cons in_m e by auto
  qed
qed

lemma findMaxPrefix_none:
  "\<forall>(k, n) \<in> set es. n \<le> mc \<Longrightarrow> findMaxPrefix es (mp, mc) = (mp, mc)"
  by (induction es) auto

lemma findMaxPrefix_some:
  "\<exists>(k, n) \<in> set es. n > mc \<Longrightarrow> findMaxPrefix es (mp, mc) = (r, rc) \<Longrightarrow>
   (r, rc) \<in> set es \<and> mc < rc \<and> (\<forall>(k, n) \<in> set es. n \<le> rc) \<and>
   (\<forall>(k, n) \<in> set (takeWhile (\<lambda>e. e \<noteq> (r, rc)) es). n < rc)"
proof (induction es arbitrary: mp mc)
  case Nil
  then show ?case by simp
next
  case (Cons e es)
  obtain k n where e: "e = (k, n)" by (cases e)
  show ?case
  proof (cases "n > mc")
    case True
    note big = True
    have step: "findMaxPrefix es (k, n) = (r, rc)" using Cons.prems(2) e True by simp
    show ?thesis
    proof (cases "\<exists>(k', n') \<in> set es. n' > n")
      case True
      from Cons.IH [OF True step] show ?thesis using e big by auto
    next
      case False
      then have "\<forall>(k', n') \<in> set es. n' \<le> n" by (auto simp: not_less)
      then have "findMaxPrefix es (k, n) = (k, n)" by (rule findMaxPrefix_none)
      then have "(r, rc) = (k, n)" using step by simp
      then show ?thesis using e big False by (auto simp: not_less)
    qed
  next
    case False
    then have step: "findMaxPrefix es (mp, mc) = (r, rc)" using Cons.prems(2) e by simp
    have ex: "\<exists>(k', n') \<in> set es. n' > mc" using Cons.prems(1) e False by auto
    from Cons.IH [OF ex step] show ?thesis using e False by auto
  qed
qed

lemma count_list_pos: "x \<in> set xs \<Longrightarrow> 0 < count_list xs x"
  by (induction xs) auto

text \<open>
  C9, as the source has it. The name is \<open>component\<close> when no class of the group has a
  prefix longer than two characters. Otherwise it is one of the counted prefixes, no
  counted prefix occurs more often, and every counted prefix met before it occurs
  strictly less often: the first of the most frequent prefixes longer than two characters.
  A prefix that occurs once is chosen like any other.
\<close>

theorem inferRecipeName_first_most_frequent:
  "(countedPrefixes ps = [] \<longrightarrow> inferRecipeName ps = ''component'') \<and>
   (countedPrefixes ps \<noteq> [] \<longrightarrow>
      inferRecipeName ps \<in> set (countedPrefixes ps) \<and>
      (\<forall>q. count_list (countedPrefixes ps) q
            \<le> count_list (countedPrefixes ps) (inferRecipeName ps)) \<and>
      (\<forall>q \<in> set (takeWhile (\<lambda>x. x \<noteq> inferRecipeName ps) (countedPrefixes ps)).
          count_list (countedPrefixes ps) q
            < count_list (countedPrefixes ps) (inferRecipeName ps)))"
proof -
  define cs where "cs = concat (map p_classes ps)"
  define E where "E = countedPrefixes ps"
  define m where "m = countPrefixes [] cs"
  have E: "E = countedPrefixesOf cs" by (simp add: E_def cs_def countedPrefixes_def)
  have keys: "map fst m = firsts E"
    using keys_countPrefixes [of "[]" cs] by (simp add: m_def E)
  have dist: "distinct (map fst m)" by (simp add: keys distinct_firsts)
  have look: "map_of m k = (if k \<in> set E then Some (count_list E k) else None)" for k
    using map_of_countPrefixes [of "[]" cs k] by (simp add: m_def E)
  have mem: "(k, n) \<in> set m \<longleftrightarrow> k \<in> set E \<and> n = count_list E k" for k n
    using map_of_eq_Some_iff [OF dist, of k n] look [of k] by (auto split: if_splits)
  have name: "inferRecipeName ps = fst (findMaxPrefix m (''component'', 0))"
    by (simp add: inferRecipeName_def m_def cs_def Let_def)
  show ?thesis
  proof (cases "E = []")
    case True
    then have "m = []" using keys by simp
    then show ?thesis using True name by (simp add: E_def)
  next
    case False
    then obtain x where x: "x \<in> set E" by (cases E) auto
    obtain r rc where res: "findMaxPrefix m (''component'', 0) = (r, rc)"
      by (cases "findMaxPrefix m (''component'', 0)")
    have "(x, count_list E x) \<in> set m" using x mem by simp
    moreover have "0 < count_list E x" using x by (rule count_list_pos)
    ultimately have ex: "\<exists>(k, n) \<in> set m. n > 0" by blast
    from findMaxPrefix_some [OF ex res]
    have in_m: "(r, rc) \<in> set m"
      and all_le: "\<forall>(k, n) \<in> set m. n \<le> rc"
      and before: "\<forall>(k, n) \<in> set (takeWhile (\<lambda>e. e \<noteq> (r, rc)) m). n < rc"
      by auto
    have r: "r \<in> set E" and rc: "rc = count_list E r" using in_m mem by auto
    have le: "count_list E q \<le> rc" for q
    proof (cases "q \<in> set E")
      case True
      then have "(q, count_list E q) \<in> set m" using mem by simp
      then show ?thesis using all_le by auto
    next
      case False
      then show ?thesis by (simp add: count_list_0_iff)
    qed
    have lt: "count_list E q < rc" if q: "q \<in> set (takeWhile (\<lambda>x. x \<noteq> r) E)" for q
    proof -
      have "q \<in> set (takeWhile (\<lambda>x. x \<noteq> r) (map fst m))"
        using q by (simp add: keys set_takeWhile_firsts)
      then have "q \<in> set (map fst (takeWhile (\<lambda>e. e \<noteq> (r, rc)) m))"
        using takeWhile_keys [OF dist in_m] by simp
      then obtain n where n: "(q, n) \<in> set (takeWhile (\<lambda>e. e \<noteq> (r, rc)) m)" by auto
      then have "(q, n) \<in> set m" by (rule set_takeWhileD [THEN conjunct1])
      then have "n = count_list E q" using mem by simp
      then show ?thesis using before n by auto
    qed
    have "inferRecipeName ps = r" using name res by simp
    then show ?thesis using False r rc le lt by (simp add: E_def)
  qed
qed

text \<open>
  The theorem at two groups: one whose classes all have short prefixes, and one where
  \<open>btn\<close> (twice) is met before \<open>flex\<close> and \<open>rounded\<close> (twice each).
\<close>

theorem inferRecipeName_first_most_frequent_witness:
  "countedPrefixes [clusterA, clusterB] = [] \<and>
   inferRecipeName [clusterA, clusterB] = ''component'' \<and>
   countedPrefixes [buttonA, buttonB] = [''btn'', ''flex'', ''rounded'', ''btn'', ''flex'', ''rounded''] \<and>
   inferRecipeName [buttonA, buttonB] = ''btn'' \<and>
   inferRecipeName [buttonA, buttonB] \<in> set (countedPrefixes [buttonA, buttonB]) \<and>
   count_list (countedPrefixes [buttonA, buttonB]) ''flex''
     \<le> count_list (countedPrefixes [buttonA, buttonB]) (inferRecipeName [buttonA, buttonB])"
proof -
  have a: "countedPrefixes [clusterA, clusterB] = []"
    by (simp add: countedPrefixes_def countedPrefixesOf_def clusterA_def clusterB_def
        mkPattern_def splitDashHead_def)
  have b: "countedPrefixes [buttonA, buttonB]
             = [''btn'', ''flex'', ''rounded'', ''btn'', ''flex'', ''rounded'']"
    by (simp add: countedPrefixes_def countedPrefixesOf_def buttonA_def buttonB_def
        mkPattern_def splitDashHead_def)
  have c: "inferRecipeName [buttonA, buttonB] = ''btn''"
    by (simp add: inferRecipeName_def buttonA_def buttonB_def mkPattern_def splitDashHead_def)
  have ne: "countedPrefixes [buttonA, buttonB] \<noteq> []" using b by simp
  from inferRecipeName_first_most_frequent [of "[clusterA, clusterB]"] a
  have d: "inferRecipeName [clusterA, clusterB] = ''component''" by blast
  from inferRecipeName_first_most_frequent [of "[buttonA, buttonB]"] ne
  have e: "inferRecipeName [buttonA, buttonB] \<in> set (countedPrefixes [buttonA, buttonB])"
    and f: "\<forall>q. count_list (countedPrefixes [buttonA, buttonB]) q
            \<le> count_list (countedPrefixes [buttonA, buttonB]) (inferRecipeName [buttonA, buttonB])"
    by blast+
  show ?thesis using a b c d e f by blast
qed

text \<open>
  C9 as the specification words it fails on a group of two patterns that share three of
  their five classes: the prefix \<open>p\<close> occurs twice, as often as any other prefix, and
  still the name is the placeholder, because no prefix is longer than two characters.
\<close>

theorem inferRecipeName_counterexample:
  "inferRecipeName [clusterA, clusterB] = ''component'' \<and>
   allPrefixes [clusterA, clusterB] = [''p'', ''m'', ''mt'', ''z'', ''p'', ''m'', ''mt'', ''z''] \<and>
   count_list (allPrefixes [clusterA, clusterB]) ''p'' = 2"
  by (simp add: inferRecipeName_def allPrefixes_def clusterA_def clusterB_def mkPattern_def
      splitDashHead_def)

subsection \<open>Clustering\<close>

lemma absorbSimilar_eq:
  "distinct (map p_id xs) \<Longrightarrow>
   absorbSimilar p xs (g, U) =
     (g @ filter (\<lambda>q. p_id q \<notin> set U \<and> similar p q) xs,
      U @ map p_id (filter (\<lambda>q. p_id q \<notin> set U \<and> similar p q) xs))"
proof (induction xs arbitrary: g U)
  case Nil
  then show ?case by simp
next
  case (Cons x xs)
  have d: "distinct (map p_id xs)" using Cons.prems by simp
  have "p_id x \<notin> p_id ` set xs" using Cons.prems by simp
  then have nx: "\<And>q. q \<in> set xs \<Longrightarrow> p_id q \<noteq> p_id x" by (metis image_eqI)
  have cong: "filter (\<lambda>q. p_id q \<notin> set (U @ [p_id x]) \<and> similar p q) xs
              = filter (\<lambda>q. p_id q \<notin> set U \<and> similar p q) xs"
    using nx by (intro filter_cong) auto
  show ?case
    using Cons.IH [OF d] cong by (simp add: similar_def)
qed

lemma groupLoop_eq:
  "distinct (map p_id (pre @ rest)) \<Longrightarrow> (\<And>q. q \<in> set pre \<Longrightarrow> p_id q \<in> set U) \<Longrightarrow>
   fst (groupLoop (pre @ rest) rest (groups, U)) =
     groups @ greedyGroups (filter (\<lambda>q. p_id q \<notin> set U) rest)"
proof (induction rest arbitrary: pre groups U)
  case Nil
  then show ?case by simp
next
  case (Cons p rest)
  have dist: "distinct (map p_id ((pre @ [p]) @ rest))" using Cons.prems(1) by simp
  show ?case
  proof (cases "p_id p \<in> set U")
    case True
    have used: "\<And>q. q \<in> set (pre @ [p]) \<Longrightarrow> p_id q \<in> set U"
      using Cons.prems(2) True by auto
    from Cons.IH [OF dist used, of groups] show ?thesis using True by simp
  next
    case False
    define U1 where "U1 = U @ [p_id p]"
    define sel where "sel = filter (\<lambda>q. p_id q \<notin> set U \<and> similar p q) rest"
    have "p_id p \<notin> p_id ` set rest" using Cons.prems(1) by simp
    then have ne_rest: "\<And>q. q \<in> set rest \<Longrightarrow> p_id q \<noteq> p_id p" by (metis image_eqI)
    have f_pre: "filter (\<lambda>q. p_id q \<notin> set U1 \<and> similar p q) pre = []"
      using Cons.prems(2) by (auto simp: U1_def filter_empty_conv)
    have f_rest: "filter (\<lambda>q. p_id q \<notin> set U1 \<and> similar p q) rest = sel"
      unfolding sel_def U1_def using ne_rest by (intro filter_cong) auto
    have f_all: "filter (\<lambda>q. p_id q \<notin> set U1 \<and> similar p q) (pre @ p # rest) = sel"
      using f_pre f_rest by (simp add: U1_def)
    have ab: "absorbSimilar p (pre @ p # rest) ([p], U1) = ([p] @ sel, U1 @ map p_id sel)"
      by (simp only: absorbSimilar_eq [OF Cons.prems(1)] f_all)
    define U2 where "U2 = U1 @ map p_id sel"
    define groups2 where "groups2 = (if sel = [] then groups else groups @ [p # sel])"
    have len: "(2 \<le> length ([p] @ sel)) = (sel \<noteq> [])" by (cases sel) auto
    have step: "groupLoop (pre @ p # rest) (p # rest) (groups, U)
                = groupLoop (pre @ p # rest) rest (groups2, U2)"
      using False ab len by (auto simp: U1_def U2_def groups2_def)
    have used: "\<And>q. q \<in> set (pre @ [p]) \<Longrightarrow> p_id q \<in> set U2"
      using Cons.prems(2) by (auto simp: U2_def U1_def)
    have id_inj: "\<And>q q'. q \<in> set rest \<Longrightarrow> q' \<in> set rest \<Longrightarrow> p_id q = p_id q' \<Longrightarrow> q = q'"
      using Cons.prems(1) by (auto simp: distinct_map inj_on_def)
    have live: "filter (\<lambda>q. p_id q \<notin> set U2) rest
                = filter (\<lambda>q. \<not> similar p q) (filter (\<lambda>q. p_id q \<notin> set U) rest)"
      unfolding filter_filter
    proof (intro filter_cong refl)
      fix q assume q: "q \<in> set rest"
      have "p_id q \<in> p_id ` set sel \<longleftrightarrow> q \<in> set sel"
      proof
        assume "p_id q \<in> p_id ` set sel"
        then obtain q' where "q' \<in> set sel" "p_id q = p_id q'" by auto
        moreover then have "q' \<in> set rest" by (simp add: sel_def)
        ultimately show "q \<in> set sel" using id_inj [OF q] by auto
      qed auto
      then show "(p_id q \<notin> set U2) = (p_id q \<notin> set U \<and> \<not> similar p q)"
        using q ne_rest [OF q] by (auto simp: U2_def U1_def sel_def)
    qed
    have sel': "filter (similar p) (filter (\<lambda>q. p_id q \<notin> set U) rest) = sel"
      by (simp add: sel_def conj_commute)
    have "fst (groupLoop (pre @ p # rest) (p # rest) (groups, U))
          = groups2 @ greedyGroups (filter (\<lambda>q. p_id q \<notin> set U2) rest)"
      using Cons.IH [OF dist used, of groups2] step by simp
    also have "\<dots> = groups @ greedyGroups (filter (\<lambda>q. p_id q \<notin> set U) (p # rest))"
      using False live sel' by (simp add: groups2_def)
    finally show ?thesis .
  qed
qed

lemma groupSimilarPatterns_greedy:
  "distinct (map p_id ps) \<Longrightarrow> groupSimilarPatterns ps = greedyGroups ps"
  using groupLoop_eq [of "[]" ps "[]" "[]"] by (simp add: groupSimilarPatterns_def)

lemma groupLoop_sizes:
  "\<forall>g \<in> set groups. 2 \<le> length g \<Longrightarrow>
   \<forall>g \<in> set (fst (groupLoop all rest (groups, U))). 2 \<le> length g"
proof (induction rest arbitrary: groups U)
  case Nil
  then show ?case by simp
next
  case (Cons p rest)
  show ?case
  proof (cases "p_id p \<in> set U")
    case True
    then show ?thesis using Cons.IH [OF Cons.prems] by simp
  next
    case False
    obtain g U' where ab: "absorbSimilar p all ([p], U @ [p_id p]) = (g, U')"
      by (cases "absorbSimilar p all ([p], U @ [p_id p])")
    define groups2 where "groups2 = (if 2 \<le> length g then groups @ [g] else groups)"
    have g2: "\<forall>g' \<in> set groups2. 2 \<le> length g'"
      using Cons.prems by (simp add: groups2_def)
    have step: "groupLoop all (p # rest) (groups, U) = groupLoop all rest (groups2, U')"
      using False ab by (simp add: groups2_def)
    show ?thesis unfolding step by (rule Cons.IH [OF g2])
  qed
qed

lemma calculateSimilarity_sets:
  "calculateSimilarity a b =
     (if card (set a \<union> set b) > 0
      then of_nat (card (set a \<inter> set b)) / of_nat (card (set a \<union> set b)) else 0)"
proof -
  have "distinct (filter (\<lambda>x. x \<in> set (firsts b)) (firsts a))"
    by (simp add: distinct_firsts)
  then have "length (filter (\<lambda>x. x \<in> set (firsts b)) (firsts a))
      = card (set (filter (\<lambda>x. x \<in> set (firsts b)) (firsts a)))"
    by (rule distinct_card [symmetric])
  also have "set (filter (\<lambda>x. x \<in> set (firsts b)) (firsts a)) = set a \<inter> set b"
    by (auto simp: set_firsts)
  finally have i: "length (filter (\<lambda>x. x \<in> set (firsts b)) (firsts a)) = card (set a \<inter> set b)" .
  have "length (firsts (firsts a @ firsts b)) = card (set (firsts (firsts a @ firsts b)))"
    by (rule distinct_card [symmetric]) (rule distinct_firsts)
  also have "set (firsts (firsts a @ firsts b)) = set a \<union> set b"
    by (simp add: set_firsts)
  finally have u: "length (firsts (firsts a @ firsts b)) = card (set a \<union> set b)" .
  show ?thesis unfolding calculateSimilarity_def Let_def i u ..
qed

lemma calculateSimilarity_sym: "calculateSimilarity a b = calculateSimilarity b a"
  by (simp add: calculateSimilarity_sets Int_commute Un_commute)

lemma similar_sym: "similar p q = similar q p"
  by (simp add: similar_def calculateSimilarity_sym)

lemma greedyGroups_subset:
  "g \<in> set (greedyGroups xs) \<Longrightarrow> g \<noteq> [] \<and> set g \<subseteq> set xs"
proof (induction xs arbitrary: g rule: greedyGroups.induct)
  case 1
  then show ?case by simp
next
  case (2 p rest)
  then show ?case by (auto split: if_splits)
qed

lemma greedyGroups_distinct:
  "distinct xs \<Longrightarrow> distinct (concat (greedyGroups xs))"
proof (induction xs rule: greedyGroups.induct)
  case 1
  then show ?case by simp
next
  case (2 p rest)
  let ?rest' = "filter (\<lambda>other. \<not> similar p other) rest"
  have d: "distinct (concat (greedyGroups ?rest'))" using 2 by simp
  have sub: "set (concat (greedyGroups ?rest')) \<subseteq> set ?rest'"
    using greedyGroups_subset [of _ ?rest'] by auto
  have "distinct (p # filter (similar p) rest)" using "2.prems" by simp
  moreover have "set (p # filter (similar p) rest) \<inter> set (concat (greedyGroups ?rest')) = {}"
    using sub "2.prems" by auto
  ultimately show ?case using d by (simp del: set_concat)
qed

lemma greedyGroups_member:
  "distinct xs \<Longrightarrow> greedyGroups xs = before @ g # after \<Longrightarrow>
   q \<in> set (tl g) \<longleftrightarrow>
     q \<in> set xs \<and> q \<noteq> hd g \<and> q \<notin> set (concat before) \<and> similar (hd g) q"
proof (induction xs arbitrary: before rule: greedyGroups.induct)
  case 1
  then show ?case by simp
next
  case (2 p rest)
  let ?sel = "filter (similar p) rest"
  let ?rest' = "filter (\<lambda>other. \<not> similar p other) rest"
  have dr: "distinct ?rest'" using "2.prems"(1) by simp
  have pr: "p \<notin> set rest" using "2.prems"(1) by simp
  show ?case
  proof (cases "?sel = []")
    case True
    then have eq: "greedyGroups ?rest' = before @ g # after" using "2.prems"(2) by simp
    have ih: "q \<in> set (tl g) \<longleftrightarrow>
        q \<in> set ?rest' \<and> q \<noteq> hd g \<and> q \<notin> set (concat before) \<and> similar (hd g) q"
      using "2.IH" [OF dr eq] .
    have "g \<in> set (greedyGroups ?rest')" by (simp add: eq)
    then have g: "g \<noteq> []" "set g \<subseteq> set ?rest'" using greedyGroups_subset by blast+
    have "hd g \<in> set g" using g(1) by (rule hd_in_set)
    then have "hd g \<in> set ?rest'" using g(2) by blast
    then have hg: "hd g \<in> set rest" "\<not> similar p (hd g)" by simp_all
    have none: "\<And>r. r \<in> set rest \<Longrightarrow> \<not> similar p r"
      using True by (simp add: filter_empty_conv)
    have "q \<in> set ?rest' \<longleftrightarrow> q \<in> set (p # rest)" if "similar (hd g) q"
    proof (cases "q = p")
      case True
      then have "similar p (hd g)" using that similar_sym by blast
      then show ?thesis using hg by simp
    next
      case False
      then show ?thesis using none by auto
    qed
    then show ?thesis using ih by blast
  next
    case False
    then have eq: "(p # ?sel) # greedyGroups ?rest' = before @ g # after"
      using "2.prems"(2) by simp
    show ?thesis
    proof (cases before)
      case Nil
      then have "g = p # ?sel" using eq by simp
      then show ?thesis using Nil pr by auto
    next
      case (Cons b before')
      then have b: "b = p # ?sel" and eq': "greedyGroups ?rest' = before' @ g # after"
        using eq by simp_all
      have ih: "q \<in> set (tl g) \<longleftrightarrow>
          q \<in> set ?rest' \<and> q \<noteq> hd g \<and> q \<notin> set (concat before') \<and> similar (hd g) q"
        using "2.IH" [OF dr eq'] .
      have "q \<in> set ?rest' \<longleftrightarrow> q \<in> set (p # rest) \<and> q \<notin> set (p # ?sel)"
        using pr by auto
      then show ?thesis using ih by (simp add: Cons b) blast
    qed
  qed
qed

text \<open>
  C4, as the source has it. With pairwise different pattern ids (the keys of the pattern
  map):
  \<^item> the two loops compute the greedy clustering: in iteration order, a pattern not yet
    grouped opens a group and takes every pattern not yet grouped whose similarity to it
    is strictly above one half;
  \<^item> no returned group has fewer than two members;
  \<^item> for every returned group, with the groups returned before it: the group's first
    member, its opener, is one of the patterns, no pattern is in two groups, and a pattern
    is one of the other members of the group exactly when it is one of the patterns, is
    not the opener, is in no earlier group, and its similarity to the opener is strictly
    above one half. So a pattern joins the first group that qualifies; membership is
    decided against the opener alone, not against the other members;
  \<^item> a clustering of just two patterns groups them exactly when their similarity is
    strictly above one half: at one half, or below it as at 0.49, no group is returned.
\<close>

theorem groupSimilarPatterns_greedy_strict:
  "(distinct (map p_id ps) \<longrightarrow> groupSimilarPatterns ps = greedyGroups ps) \<and>
   (\<forall>g \<in> set (groupSimilarPatterns ps). 2 \<le> length g) \<and>
   (distinct (map p_id ps) \<longrightarrow> groupSimilarPatterns ps = earlier @ g # later \<longrightarrow>
      hd g \<in> set ps \<and> distinct (concat (groupSimilarPatterns ps)) \<and>
      (\<forall>other. other \<in> set (tl g) \<longleftrightarrow>
         other \<in> set ps \<and> other \<noteq> hd g \<and> other \<notin> set (concat earlier) \<and>
         calculateSimilarity (p_classes (hd g)) (p_classes other) > 1 / 2)) \<and>
   (p_id p \<noteq> p_id q \<longrightarrow>
      groupSimilarPatterns [p, q] =
        (if calculateSimilarity (p_classes p) (p_classes q) > 1 / 2 then [[p, q]] else []))"
proof -
  have 1: "groupSimilarPatterns ps = greedyGroups ps" if "distinct (map p_id ps)"
    using that by (rule groupSimilarPatterns_greedy)
  have 2: "\<forall>g \<in> set (groupSimilarPatterns ps). 2 \<le> length g"
    unfolding groupSimilarPatterns_def by (rule groupLoop_sizes) simp
  have 3: "hd g \<in> set ps \<and> distinct (concat (groupSimilarPatterns ps)) \<and>
      (\<forall>other. other \<in> set (tl g) \<longleftrightarrow>
         other \<in> set ps \<and> other \<noteq> hd g \<and> other \<notin> set (concat earlier) \<and>
         calculateSimilarity (p_classes (hd g)) (p_classes other) > 1 / 2)"
    if d: "distinct (map p_id ps)" and eq: "groupSimilarPatterns ps = earlier @ g # later"
  proof -
    have dist: "distinct ps" using d by (simp add: distinct_map)
    have gg: "greedyGroups ps = earlier @ g # later" using 1 [OF d] eq by simp
    then have "g \<in> set (greedyGroups ps)" by simp
    then have "g \<noteq> []" "set g \<subseteq> set ps" using greedyGroups_subset by blast+
    then have a: "hd g \<in> set ps" using hd_in_set by blast
    have b: "distinct (concat (groupSimilarPatterns ps))"
      unfolding 1 [OF d] using dist by (rule greedyGroups_distinct)
    have c: "other \<in> set (tl g) \<longleftrightarrow>
         other \<in> set ps \<and> other \<noteq> hd g \<and> other \<notin> set (concat earlier) \<and>
         calculateSimilarity (p_classes (hd g)) (p_classes other) > 1 / 2" for other
      using greedyGroups_member [OF dist gg, of other] by (simp add: similar_def)
    show ?thesis using a b c by blast
  qed
  have 4: "groupSimilarPatterns [p, q] =
        (if calculateSimilarity (p_classes p) (p_classes q) > 1 / 2 then [[p, q]] else [])"
    if "p_id p \<noteq> p_id q"
  proof -
    have "groupSimilarPatterns [p, q] = greedyGroups [p, q]"
      using that by (intro groupSimilarPatterns_greedy) simp
    then show ?thesis by (simp add: similar_def)
  qed
  show ?thesis using 1 2 3 4 by blast
qed

lemma similarity_half: "calculateSimilarity (p_classes halfA) (p_classes halfB) = 1 / 2"
  by (simp add: calculateSimilarity_def halfA_def halfB_def mkPattern_def)

text \<open>
  The theorem at five patterns. \<open>clusterA\<close> takes \<open>clusterB\<close> (similarity 3/5);
  \<open>pairAB\<close> takes \<open>halfA\<close> (2/3) and not \<open>pairBC\<close> (1/3); \<open>pairBC\<close> stays alone
  and is dropped, although its similarity to \<open>halfA\<close> is 2/3: \<open>halfA\<close> was taken before.
  And at the two patterns \<open>halfA\<close> and \<open>halfB\<close> of similarity exactly 1/2.
\<close>

theorem groupSimilarPatterns_greedy_strict_witness:
  "distinct (map p_id [clusterA, pairAB, clusterB, halfA, pairBC]) \<and>
   groupSimilarPatterns [clusterA, pairAB, clusterB, halfA, pairBC]
     = [[clusterA, clusterB]] @ [pairAB, halfA] # [] \<and>
   greedyGroups [clusterA, pairAB, clusterB, halfA, pairBC]
     = [[clusterA, clusterB], [pairAB, halfA]] \<and>
   2 \<le> length [pairAB, halfA] \<and>
   halfA \<in> set (tl [pairAB, halfA]) \<and>
   halfA \<notin> set (concat [[clusterA, clusterB]]) \<and>
   calculateSimilarity (p_classes pairAB) (p_classes halfA) > 1 / 2 \<and>
   pairBC \<notin> set (tl [pairAB, halfA]) \<and>
   \<not> calculateSimilarity (p_classes pairAB) (p_classes pairBC) > 1 / 2 \<and>
   calculateSimilarity (p_classes halfA) (p_classes pairBC) > 1 / 2 \<and>
   p_id halfA \<noteq> p_id halfB \<and>
   groupSimilarPatterns [halfA, halfB] = []"
proof -
  let ?ps = "[clusterA, pairAB, clusterB, halfA, pairBC]"
  have d: "distinct (map p_id ?ps)"
    by (simp add: clusterA_def clusterB_def halfA_def pairAB_def pairBC_def mkPattern_def)
  have n: "p_id halfA \<noteq> p_id halfB"
    by (simp add: halfA_def halfB_def mkPattern_def)
  have gs: "groupSimilarPatterns ?ps = [[clusterA, clusterB]] @ [pairAB, halfA] # []"
    by code_simp
  have mem: "pairBC \<in> set ?ps" "pairBC \<noteq> pairAB" "pairBC \<notin> set (concat [[clusterA, clusterB]])"
    by code_simp+
  have s23: "calculateSimilarity (p_classes halfA) (p_classes pairBC) = 2 / 3"
    by (simp add: calculateSimilarity_def halfA_def pairBC_def mkPattern_def)
  note inst = groupSimilarPatterns_greedy_strict
      [of ?ps "[[clusterA, clusterB]]" "[pairAB, halfA]" "[]" halfA halfB]
  have g: "greedyGroups ?ps = [[clusterA, clusterB], [pairAB, halfA]]"
    using inst d gs by simp
  have len: "2 \<le> length [pairAB, halfA]" by simp
  have char: "other \<in> set (tl [pairAB, halfA]) \<longleftrightarrow>
         other \<in> set ?ps \<and> other \<noteq> hd [pairAB, halfA]
         \<and> other \<notin> set (concat [[clusterA, clusterB]]) \<and>
         calculateSimilarity (p_classes (hd [pairAB, halfA])) (p_classes other) > 1 / 2" for other
    using inst d gs by blast
  have inA: "halfA \<in> set (tl [pairAB, halfA])" by simp
  have outC: "pairBC \<notin> set (tl [pairAB, halfA])"
    by (simp add: pairBC_def halfA_def mkPattern_def)
  have simA: "halfA \<notin> set (concat [[clusterA, clusterB]]) \<and>
      calculateSimilarity (p_classes pairAB) (p_classes halfA) > 1 / 2"
    using char [of halfA] inA by simp
  have simC: "\<not> calculateSimilarity (p_classes pairAB) (p_classes pairBC) > 1 / 2"
    using char [of pairBC] outC mem by simp
  have half: "groupSimilarPatterns [halfA, halfB] = []"
    using inst n by (simp add: similarity_half)
  show ?thesis using d gs g len inA simA outC simC s23 n half by simp
qed

text \<open>
  C4 as the specification words it fails at similarity exactly one half: the class sets
  \<open>{a, b, c}\<close> and \<open>{a, b, d}\<close> share two of four classes, and no group is returned.
\<close>

theorem groupSimilarPatterns_half_counterexample:
  "calculateSimilarity (p_classes halfA) (p_classes halfB) = 1 / 2 \<and>
   groupSimilarPatterns [halfA, halfB] = []"
  by (simp add: groupSimilarPatterns_def similarity_half)

subsection \<open>Class lists to style objects\<close>

lemma foldl_setAdd: "distinct (ys @ zs) \<Longrightarrow> foldl setAdd ys zs = ys @ zs"
proof (induction zs arbitrary: ys)
  case Nil
  then show ?case by simp
next
  case (Cons z zs)
  have "z \<notin> set ys" using Cons.prems by auto
  then have "setAdd ys z = ys @ [z]" by (simp add: setAdd_def)
  moreover have "distinct ((ys @ [z]) @ zs)" using Cons.prems by auto
  ultimately show ?case using Cons.IH [of "ys @ [z]"] by simp
qed

lemma foldl_categorizeStep:
  "foldl (categorizeStep env) acc xs =
     \<lparr>twClasses = foldl setAdd (twClasses acc)
                     (filter (\<lambda>c. \<not> isTailwindMarkerClass c \<and> \<not> falsy (candidatesToCss env c)) xs),
      markerClasses = markerClasses acc @ filter isTailwindMarkerClass xs,
      customClasses = customClasses acc
                     @ filter (\<lambda>c. \<not> isTailwindMarkerClass c \<and> falsy (candidatesToCss env c)) xs\<rparr>"
proof (induction xs arbitrary: acc)
  case Nil
  then show ?case by simp
next
  case (Cons x xs)
  show ?case unfolding foldl_Cons Cons.IH by (simp add: categorizeStep_def)
qed

lemma categorizeClasses_filter:
  assumes "distinct classList"
  shows "categorizeClasses env classList =
     \<lparr>twClasses = filter (\<lambda>c. \<not> isTailwindMarkerClass c \<and> \<not> falsy (candidatesToCss env c)) classList,
      markerClasses = filter isTailwindMarkerClass classList,
      customClasses = filter (\<lambda>c. \<not> isTailwindMarkerClass c \<and> falsy (candidatesToCss env c)) classList\<rparr>"
proof -
  have "distinct (filter (\<lambda>c. \<not> isTailwindMarkerClass c \<and> \<not> falsy (candidatesToCss env c)) classList)"
    using assms by simp
  then show ?thesis
    using foldl_setAdd [of "[]"] by (simp add: categorizeClasses_def foldl_categorizeStep)
qed

lemma getMatching_classInfo:
  "mt \<in> set (getMatchingTwCandidates env c) \<Longrightarrow> parseTwClassName env c = Some (mt_classInfo mt)"
  by (auto simp: getMatchingTwCandidates_def matchingTokenOf_def List.map_filter_def Let_def
           split: option.splits if_splits)

lemma nestedStyles_two:
  "ci_modifiers (mt_classInfo mt) = [m1, m2] \<Longrightarrow>
   nestedStyles env mt =
     SObject [(conditionKey env m2,
       SObject [(conditionKey env m1,
         SObject [(mt_propName mt,
           SString (formatTokenValue (mt_propName mt) (mt_tokenName mt) (mt_rawValue mt)))])])]"
  by (simp add: nestedStyles_def)

lemma styles_mem:
  "(mt, st) \<in> set (twClassListToPandaStyles env classList) \<longleftrightarrow>
   (\<exists>c \<in> set classList. mt \<in> set (getMatchingTwCandidates env c)) \<and> st = nestedStyles env mt"
  by (auto simp: twClassListToPandaStyles_def)


text \<open>
  C1, as the source has it. For a class of the list whose parsed candidate has the
  modifiers \<open>[m1, m2]\<close>, every resolved property gives the style object
  \<open>{k2: {k1: {property: value}}}\<close>: the \<open>reduce\<close> wraps once per modifier from the first,
  so the last-listed modifier is the outermost key. Each key is the prefixed camel-cased
  name when that is registered, else the camel-cased name when that is registered, else
  the modifier as written.
\<close>

theorem twClassListToPandaStyles_last_modifier_outermost:
  assumes "c \<in> set classList"
    and "parseTwClassName env c = Some ci"
    and "ci_modifiers ci = [m1, m2]"
  shows "(\<forall>mt \<in> set (getMatchingTwCandidates env c).
            (mt, SObject [(conditionKey env m2,
                   SObject [(conditionKey env m1,
                     SObject [(mt_propName mt,
                       SString (formatTokenValue (mt_propName mt) (mt_tokenName mt)
                                  (mt_rawValue mt)))])])])
              \<in> set (twClassListToPandaStyles env classList)) \<and>
         (\<forall>m. conditionKey env m =
            (if conditionsValues env (''_'' @ kebabToCamel m) then ''_'' @ kebabToCamel m
             else if conditionsValues env (kebabToCamel m) then kebabToCamel m
             else m))"
proof (intro conjI ballI allI)
  fix mt assume mt: "mt \<in> set (getMatchingTwCandidates env c)"
  then have "mt_classInfo mt = ci" using getMatching_classInfo [OF mt] assms(2) by simp
  then have "ci_modifiers (mt_classInfo mt) = [m1, m2]" using assms(3) by simp
  from nestedStyles_two [OF this, of env]
  show "(mt, SObject [(conditionKey env m2,
                   SObject [(conditionKey env m1,
                     SObject [(mt_propName mt,
                       SString (formatTokenValue (mt_propName mt) (mt_tokenName mt)
                                  (mt_rawValue mt)))])])])
              \<in> set (twClassListToPandaStyles env classList)"
    using mt assms(1) by (auto simp: styles_mem)
next
  fix m show "conditionKey env m =
            (if conditionsValues env (''_'' @ kebabToCamel m) then ''_'' @ kebabToCamel m
             else if conditionsValues env (kebabToCamel m) then kebabToCamel m
             else m)"
    by (simp add: conditionKey_def Let_def)
qed

lemma sample_matching:
  "getMatchingTwCandidates sampleEnv ''dark:hover:text-sky-400'' = [skyToken]"
  by code_simp

lemma sample_keys:
  "conditionKey sampleEnv ''dark'' = ''_dark''" "conditionKey sampleEnv ''hover'' = ''_hover''"
  by code_simp+

lemma sample_format: "formatTokenValue ''color'' ''sky.400'' ''#38bdf8'' = ''token(colors.sky.400, #38bdf8)''"
  by code_simp

text \<open>The theorem at the class \<open>dark:hover:text-sky-400\<close> of the sample environment.\<close>

theorem twClassListToPandaStyles_last_modifier_outermost_witness:
  "''dark:hover:text-sky-400'' \<in> set [''flex'', ''dark:hover:text-sky-400''] \<and>
   parseTwClassName sampleEnv ''dark:hover:text-sky-400'' = Some (mt_classInfo skyToken) \<and>
   ci_modifiers (mt_classInfo skyToken) = [''dark'', ''hover''] \<and>
   (skyToken, SObject [(''_hover'', SObject [(''_dark'',
        SObject [(''color'', SString ''token(colors.sky.400, #38bdf8)'')])])])
     \<in> set (twClassListToPandaStyles sampleEnv [''flex'', ''dark:hover:text-sky-400''])"
proof -
  have a: "''dark:hover:text-sky-400'' \<in> set [''flex'', ''dark:hover:text-sky-400'']" by simp
  have b: "parseTwClassName sampleEnv ''dark:hover:text-sky-400'' = Some (mt_classInfo skyToken)"
    by (simp add: sampleEnv_def sampleParse_def skyToken_def)
  have c: "ci_modifiers (mt_classInfo skyToken) = [''dark'', ''hover'']"
    by (simp add: skyToken_def)
  have d: "skyToken \<in> set (getMatchingTwCandidates sampleEnv ''dark:hover:text-sky-400'')"
    by (simp add: sample_matching)
  have e: "mt_propName skyToken = ''color''" "mt_tokenName skyToken = ''sky.400''"
    "mt_rawValue skyToken = ''#38bdf8''"
    by (simp_all add: skyToken_def)
  have "\<forall>mt \<in> set (getMatchingTwCandidates sampleEnv ''dark:hover:text-sky-400'').
            (mt, SObject [(conditionKey sampleEnv ''hover'',
                   SObject [(conditionKey sampleEnv ''dark'',
                     SObject [(mt_propName mt,
                       SString (formatTokenValue (mt_propName mt) (mt_tokenName mt)
                                  (mt_rawValue mt)))])])])
              \<in> set (twClassListToPandaStyles sampleEnv [''flex'', ''dark:hover:text-sky-400''])"
    using twClassListToPandaStyles_last_modifier_outermost [OF a b c] by (rule conjunct1)
  from bspec [OF this d]
  have "(skyToken, SObject [(''_hover'', SObject [(''_dark'',
        SObject [(''color'', SString ''token(colors.sky.400, #38bdf8)'')])])])
     \<in> set (twClassListToPandaStyles sampleEnv [''flex'', ''dark:hover:text-sky-400''])"
    by (simp only: e sample_keys sample_format)
  then show ?thesis using a b c by blast
qed

text \<open>
  C1 as the specification words it (first modifier outermost) fails at that class: the
  modifiers are \<open>[dark, hover]\<close> and the style object is
  \<open>{_hover: {_dark: {color: ...}}}\<close>, not \<open>{_dark: {_hover: {color: ...}}}\<close>.
\<close>

theorem twClassListToPandaStyles_first_outermost_counterexample:
  "map (\<lambda>(match, styles). (ci_modifiers (mt_classInfo match), styles))
     (twClassListToPandaStyles sampleEnv [''dark:hover:text-sky-400''])
   = [([''dark'', ''hover''],
       SObject [(''_hover'', SObject [(''_dark'',
         SObject [(''color'', SString ''token(colors.sky.400, #38bdf8)'')])])])] \<and>
   map snd (twClassListToPandaStyles sampleEnv [''dark:hover:text-sky-400''])
   \<noteq> [SObject [(''_dark'', SObject [(''_hover'',
         SObject [(''color'', SString ''token(colors.sky.400, #38bdf8)'')])])]]"
  by (simp add: twClassListToPandaStyles_def sample_matching nestedStyles_def skyToken_def
      sample_keys sample_format)


lemma categorize_twClasses_again:
  assumes "distinct classList"
  shows "twClasses (categorizeClasses env (twClasses (categorizeClasses env classList)))
         = twClasses (categorizeClasses env classList)"
proof -
  let ?tw = "\<lambda>c. \<not> isTailwindMarkerClass c \<and> \<not> falsy (candidatesToCss env c)"
  have d: "distinct (filter ?tw classList)" using assms by simp
  show ?thesis
    by (simp add: categorizeClasses_filter [OF assms] categorizeClasses_filter [OF d])
qed

text \<open>
  C2. A class set (a list without repetitions) is split into the marker classes, the
  custom classes (no CSS from the resolver, and not a marker) and the Tailwind classes
  (the rest), each in the order of the set; where the resolver never answers with the
  empty text, "no CSS" is the answer \<open>null\<close>. The three parts cover the set and are
  pairwise disjoint, and the style object of the set is the style object of its Tailwind
  classes alone.
\<close>

theorem categorizeClasses_partition:
  assumes "distinct classList"
  shows "markerClasses (categorizeClasses env classList)
           = filter isTailwindMarkerClass classList \<and>
         customClasses (categorizeClasses env classList)
           = filter (\<lambda>c. \<not> isTailwindMarkerClass c \<and> falsy (candidatesToCss env c)) classList \<and>
         twClasses (categorizeClasses env classList)
           = filter (\<lambda>c. \<not> isTailwindMarkerClass c \<and> \<not> falsy (candidatesToCss env c)) classList \<and>
         ((\<forall>c \<in> set classList. candidatesToCss env c \<noteq> Some []) \<longrightarrow>
            customClasses (categorizeClasses env classList)
              = filter (\<lambda>c. \<not> isTailwindMarkerClass c \<and> candidatesToCss env c = None) classList) \<and>
         set (markerClasses (categorizeClasses env classList))
           \<union> set (customClasses (categorizeClasses env classList))
           \<union> set (twClasses (categorizeClasses env classList)) = set classList \<and>
         set (markerClasses (categorizeClasses env classList))
           \<inter> set (customClasses (categorizeClasses env classList)) = {} \<and>
         set (markerClasses (categorizeClasses env classList))
           \<inter> set (twClasses (categorizeClasses env classList)) = {} \<and>
         set (customClasses (categorizeClasses env classList))
           \<inter> set (twClasses (categorizeClasses env classList)) = {} \<and>
         classListToStyleObject env shorthands classList
           = classListToStyleObject env shorthands (twClasses (categorizeClasses env classList))"
proof -
  note eq = categorizeClasses_filter [OF assms, of env]
  have custom: "filter (\<lambda>c. \<not> isTailwindMarkerClass c \<and> falsy (candidatesToCss env c)) classList
      = filter (\<lambda>c. \<not> isTailwindMarkerClass c \<and> candidatesToCss env c = None) classList"
    if "\<forall>c \<in> set classList. candidatesToCss env c \<noteq> Some []"
    using that by (intro filter_cong) (auto simp: falsy_def)
  have again: "classListToStyleObject env shorthands classList
           = classListToStyleObject env shorthands (twClasses (categorizeClasses env classList))"
    unfolding classListToStyleObject_def categorize_twClasses_again [OF assms] ..
  show ?thesis
    unfolding eq using custom again by (auto simp: eq)
qed

text \<open>The theorem at a set of five classes in the sample environment.\<close>

theorem categorizeClasses_partition_witness:
  "distinct [''flex'', ''group/item'', ''my-card'', ''peer'', ''md:p-4''] \<and>
   list_all (\<lambda>c. candidatesToCss sampleEnv c \<noteq> Some [])
     [''flex'', ''group/item'', ''my-card'', ''peer'', ''md:p-4''] \<and>
   markerClasses (categorizeClasses sampleEnv [''flex'', ''group/item'', ''my-card'', ''peer'', ''md:p-4''])
     = [''group/item'', ''peer''] \<and>
   customClasses (categorizeClasses sampleEnv [''flex'', ''group/item'', ''my-card'', ''peer'', ''md:p-4''])
     = [''my-card''] \<and>
   twClasses (categorizeClasses sampleEnv [''flex'', ''group/item'', ''my-card'', ''peer'', ''md:p-4''])
     = [''flex'', ''md:p-4''] \<and>
   classListToStyleObject sampleEnv False [''flex'', ''group/item'', ''my-card'', ''peer'', ''md:p-4'']
     = classListToStyleObject sampleEnv False [''flex'', ''md:p-4'']"
proof -
  let ?cl = "[''flex'', ''group/item'', ''my-card'', ''peer'', ''md:p-4'']"
  have d: "distinct ?cl" by simp
  have css: "\<forall>c \<in> set ?cl. candidatesToCss sampleEnv c \<noteq> Some []"
    by (simp add: sampleEnv_def sampleCss_def)
  have m: "filter isTailwindMarkerClass ?cl = [''group/item'', ''peer'']" by code_simp
  have cu: "filter (\<lambda>c. \<not> isTailwindMarkerClass c \<and> candidatesToCss sampleEnv c = None) ?cl
            = [''my-card'']" by code_simp
  have tw: "filter (\<lambda>c. \<not> isTailwindMarkerClass c \<and> \<not> falsy (candidatesToCss sampleEnv c)) ?cl
            = [''flex'', ''md:p-4'']" by code_simp
  note part = categorizeClasses_partition [OF d, of sampleEnv False]
  have 1: "markerClasses (categorizeClasses sampleEnv ?cl) = [''group/item'', ''peer'']"
    using part unfolding m by (rule conjunct1)
  have 2: "customClasses (categorizeClasses sampleEnv ?cl) = [''my-card'']"
    using part css unfolding cu by blast
  have 3: "twClasses (categorizeClasses sampleEnv ?cl) = [''flex'', ''md:p-4'']"
    using part unfolding tw by blast
  have 4: "classListToStyleObject sampleEnv False ?cl
     = classListToStyleObject sampleEnv False (twClasses (categorizeClasses sampleEnv ?cl))"
    using part by blast
  have css': "list_all (\<lambda>c. candidatesToCss sampleEnv c \<noteq> Some []) ?cl"
    using css unfolding list_all_iff .
  show ?thesis using d css' 1 2 3 4 [unfolded 3] by blast
qed

subsection \<open>Token values\<close>

lemma tokenReference_longer: "tokenReference category tokenName rawValue \<noteq> rawValue"
proof
  assume "tokenReference category tokenName rawValue = rawValue"
  then have "length (tokenReference category tokenName rawValue) = length rawValue" by simp
  then show False by (simp add: tokenReference_def)
qed

lemma formatTokenValue_var: "includesStr rawValue ''var(--'' \<Longrightarrow> formatTokenValue p t rawValue = rawValue"
  by (simp add: formatTokenValue_def isResolvableValue_def)

text \<open>
  For a property name that is no member of \<open>Object.prototype\<close>, the value is wrapped
  exactly when the token name differs from the raw value, the raw value is usable and
  the table has an entry for the property.
\<close>

lemma formatTokenValue_table:
  assumes "map_of objectPrototypeMembers propName = None"
  shows "formatTokenValue propName tokenName rawValue =
     (case map_of PROP_TO_TOKEN_CATEGORY propName of
        Some category \<Rightarrow>
          if tokenName \<noteq> rawValue \<and> isResolvableValue rawValue
          then tokenReference category tokenName rawValue else rawValue
      | None \<Rightarrow> rawValue)"
  using assms by (simp add: formatTokenValue_def categoryOf_def split: option.splits)

text \<open>
  C3 on the code. The property name \<open>constructor\<close> has no entry in the table, and
  \<open>formatTokenValue\<close> still wraps the value: the lookup finds the member of that name
  that the table object inherits, and it is truthy.
\<close>

theorem formatTokenValue_inherited_member:
  "map_of PROP_TO_TOKEN_CATEGORY ''constructor'' = None \<and>
   formatTokenValue ''constructor'' ''blue.500'' ''#3b82f6''
     = ''token(function Object() { [native code] }.blue.500, #3b82f6)''"
  by code_simp

subsection \<open>The design-system cache\<close>

lemma inv_create: "cacheInv c \<Longrightarrow> cacheInv (snd (createTailwindContext L c a))"
  by (auto simp: cacheInv_def createTailwindContext_def Let_def split: sum.splits)

lemma inv_clear: "cacheInv (clearTailwindContextCache c)"
  by (simp add: cacheInv_def clearTailwindContextCache_def)

lemma inv_run: "cacheInv c \<Longrightarrow> cacheInv (runCalls L c calls)"
proof (induction calls arbitrary: c)
  case Nil
  then show ?case by simp
next
  case (Cons call calls)
  then show ?case by (cases call) (simp_all add: inv_create inv_clear)
qed

lemma inv_reachable: "cacheInv (runCalls L initialCache calls)"
  by (rule inv_run) (simp add: cacheInv_def initialCache_def)

text \<open>
  C6, for calls that complete one after the other, in any state the cache can reach from
  its initial state. After a call that returned a context, a call whose argument derives
  the same CSS text returns the same context object and leaves the cache and the
  construction counter as they are. A call constructs (the counter moves, by one) exactly
  when the cached key is not the derived CSS text, which includes the empty cache: before
  the first call and after \<open>clearTailwindContextCache\<close>, which always empties it.
\<close>

theorem createTailwindContext_memoized:
  fixes L :: "nat \<Rightarrow> string \<Rightarrow> string + 'ds"
  assumes "cache = runCalls L initialCache calls"
  shows "(createTailwindContext L cache arg1 = (Inr context, cache1) \<longrightarrow>
            derivedCss arg2 = derivedCss arg1 \<longrightarrow>
            createTailwindContext L cache1 arg2 = (Inr context, cache1)) \<and>
         (constructions (snd (createTailwindContext L cache arg)) = constructions cache
            \<longleftrightarrow> cachedCss cache = Some (derivedCss arg)) \<and>
         (constructions (snd (createTailwindContext L cache arg)) \<noteq> constructions cache
            \<longrightarrow> constructions (snd (createTailwindContext L cache arg)) = constructions cache + 1) \<and>
         (cachedCss cache = Some (derivedCss arg) \<longrightarrow>
            createTailwindContext L cache arg = (Inr (the (cachedDesignSystem cache)), cache)) \<and>
         cachedCss (clearTailwindContextCache cache) = None \<and>
         constructions (snd (createTailwindContext L (clearTailwindContextCache cache) arg))
           = constructions cache + 1"
proof -
  have inv: "cacheInv cache" unfolding assms by (rule inv_reachable)
  have 1: "createTailwindContext L cache1 arg2 = (Inr context, cache1)"
    if "createTailwindContext L cache arg1 = (Inr context, cache1)"
      and "derivedCss arg2 = derivedCss arg1"
    using that
    by (auto simp: createTailwindContext_def Let_def split: sum.splits if_splits)
  have 2: "constructions (snd (createTailwindContext L cache arg)) = constructions cache
            \<longleftrightarrow> cachedCss cache = Some (derivedCss arg)"
    using inv by (auto simp: createTailwindContext_def Let_def cacheInv_def split: sum.splits)
  have 3: "constructions (snd (createTailwindContext L cache arg)) \<noteq> constructions cache
            \<longrightarrow> constructions (snd (createTailwindContext L cache arg)) = constructions cache + 1"
    by (auto simp: createTailwindContext_def Let_def split: sum.splits)
  have 4: "cachedCss cache = Some (derivedCss arg) \<longrightarrow>
            createTailwindContext L cache arg = (Inr (the (cachedDesignSystem cache)), cache)"
    using inv by (auto simp: createTailwindContext_def Let_def cacheInv_def)
  have 5: "cachedCss (clearTailwindContextCache cache) = None"
    by (simp add: clearTailwindContextCache_def)
  have 6: "constructions (snd (createTailwindContext L (clearTailwindContextCache cache) arg))
           = constructions cache + 1"
    by (auto simp: createTailwindContext_def clearTailwindContextCache_def Let_def split: sum.splits)
  show ?thesis using 1 2 3 4 5 6 by blast
qed

text \<open>
  The theorem under the sample loader: the first call constructs context 0, and a second
  call with a text that is not CSS (so that the default text is derived again) returns
  that context from the cache.
\<close>

theorem createTailwindContext_memoized_witness:
  "(initialCache :: string contextCache) = runCalls sampleLoader initialCache [] \<and>
   createTailwindContext sampleLoader initialCache NoArgument
     = (Inr (0, DEFAULT_TAILWIND_CSS), sampleCache) \<and>
   derivedCss (CssText ''module.exports = {}'') = derivedCss NoArgument \<and>
   createTailwindContext sampleLoader sampleCache (CssText ''module.exports = {}'')
     = (Inr (0, DEFAULT_TAILWIND_CSS), sampleCache)"
proof -
  have a: "(initialCache :: string contextCache) = runCalls sampleLoader initialCache []" by simp
  have b: "createTailwindContext sampleLoader initialCache NoArgument
     = (Inr (0, DEFAULT_TAILWIND_CSS), sampleCache)"
    by (simp add: createTailwindContext_def initialCache_def derivedCss_def sampleLoader_def
        DEFAULT_TAILWIND_CSS_def sampleCache_def Let_def)
  have c: "derivedCss (CssText ''module.exports = {}'') = derivedCss NoArgument"
    by (simp add: derivedCss_def)
  from createTailwindContext_memoized [OF a, of NoArgument "(0, DEFAULT_TAILWIND_CSS)" sampleCache
      "CssText ''module.exports = {}''"] b c
  have "createTailwindContext sampleLoader sampleCache (CssText ''module.exports = {}'')
     = (Inr (0, DEFAULT_TAILWIND_CSS), sampleCache)" by blast
  then show ?thesis using a b c by blast
qed

subsection \<open>Token usage\<close>

lemma set_mapReplace: "set (mapReplace m k v) \<subseteq> insert (k, v) (set m)"
  by (induction m k v rule: mapReplace.induct) auto

lemma map_of_mem: "map_of m k = Some v \<Longrightarrow> (k, v) \<in> set m"
  by (rule map_of_SomeD)

lemma recordToken_ok:
  assumes "\<forall>e \<in> set tokens. usageOk (snd e)"
  shows "\<forall>e \<in> set (recordToken filePath tokens m). usageOk (snd e)"
proof (cases "trim (fst m) = []")
  case True
  then show ?thesis using assms by (simp add: recordToken_def)
next
  case False
  define key where "key = tokenKey (trim (fst m))"
  show ?thesis
  proof (cases "map_of tokens key")
    case None
    then have "\<exists>u. recordToken filePath tokens m = tokens @ [(key, u)] \<and> t_count u = 1
                 \<and> t_files u = [filePath]"
      using False by (simp add: recordToken_def Let_def key_def)
    then show ?thesis using assms by (auto simp: usageOk_def)
  next
    case (Some existing)
    define updated where "updated = existing\<lparr>t_count := t_count existing + 1,
        t_files := (if filePath \<in> set (t_files existing) then t_files existing
                    else t_files existing @ [filePath])\<rparr>"
    have eq: "recordToken filePath tokens m = mapReplace tokens key updated"
      using False Some by (simp add: recordToken_def Let_def key_def updated_def)
    have "(key, existing) \<in> set tokens" using Some by (rule map_of_SomeD)
    then have "usageOk existing" using assms by auto
    then have "usageOk updated" by (auto simp: usageOk_def updated_def)
    then show ?thesis unfolding eq using set_mapReplace [of tokens key updated] assms by auto
  qed
qed

lemma foldl_recordToken_ok:
  "\<forall>e \<in> set tokens. usageOk (snd e) \<Longrightarrow>
   \<forall>e \<in> set (foldl (recordToken filePath) tokens ms). usageOk (snd e)"
proof (induction ms arbitrary: tokens)
  case Nil
  then show ?case by simp
next
  case (Cons m ms)
  show ?case unfolding foldl_Cons by (rule Cons.IH) (rule recordToken_ok [OF Cons.prems])
qed

lemma walk_ok:
  "(\<forall>e \<in> set tokens. usageOk (snd e)) \<longrightarrow>
     (\<forall>e \<in> set (walkObject filePath st tokens). usageOk (snd e))"
  "(\<forall>e \<in> set tokens. usageOk (snd e)) \<longrightarrow>
     (\<forall>e \<in> set (walkValues filePath entries tokens). usageOk (snd e))"
proof (induction filePath st tokens and filePath entries tokens
       rule: walkObject_walkValues.induct)
  case (1 filePath str tokens)
  then show ?case using foldl_recordToken_ok by simp
qed simp_all

lemma analyzeFile_ok:
  assumes "\<forall>e \<in> set (allTokens st). usageOk (snd e)"
  shows "\<forall>e \<in> set (allTokens (analyzeFile env sh st f)). usageOk (snd e)"
proof (cases "readFileForAnalysis env sh f")
  case (Inl e)
  then show ?thesis using assms by (simp add: analyzeFile_def)
next
  case (Inr r)
  obtain classes converted unconverted tracked where r: "r = (classes, converted, unconverted, tracked)"
    by (cases r) auto
  show ?thesis
  proof (cases tracked)
    case None
    then show ?thesis using assms Inr r by (simp add: analyzeFile_def)
  next
    case (Some finalStyles)
    have "\<forall>e \<in> set (walkObject (relativePath env f) finalStyles (allTokens st)). usageOk (snd e)"
      using walk_ok(1) assms by blast
    then show ?thesis using Inr r Some by (simp add: analyzeFile_def extractTokensFromStyles_def)
  qed
qed

lemma analyzeFiles_ok_gen:
  "\<forall>e \<in> set (allTokens st). usageOk (snd e) \<Longrightarrow>
   \<forall>e \<in> set (allTokens (foldl (analyzeFile env sh) st fs)). usageOk (snd e)"
proof (induction fs arbitrary: st)
  case Nil
  then show ?case by simp
next
  case (Cons f fs)
  show ?case unfolding foldl_Cons by (rule Cons.IH) (rule analyzeFile_ok [OF Cons.prems])
qed

lemma analyzeFiles_ok: "\<forall>e \<in> set (allTokens (analyzeFiles env sh fs)). usageOk (snd e)"
  unfolding analyzeFiles_def by (rule analyzeFiles_ok_gen) simp

lemma map_of_mapReplace:
  "map_of m k = Some v0 \<Longrightarrow> map_of (mapReplace m k v) k = Some v"
  by (induction m k v rule: mapReplace.induct) (auto split: if_splits)

text \<open>
  C10. Every token usage in the result of the analysis has a file list without
  repetitions, a count not below the length of that list, and a count of at least one.
  And the step behind it: for a token path whose key the map already has, the entry's
  count goes up by one and the file is appended only if the list does not have it.
\<close>

theorem tokenUsage_invariant:
  "(\<forall>u \<in> set (pa_tokens (fst (analyzeProject env shorthands minPatternCount filePaths))).
       distinct (t_files u) \<and> length (t_files u) \<le> t_count u \<and> 1 \<le> t_count u) \<and>
   (trim tokenPath \<noteq> [] \<longrightarrow>
    map_of tokens (tokenKey (trim tokenPath)) = Some existing \<longrightarrow>
      map_of (recordToken filePath tokens (tokenPath, fallback)) (tokenKey (trim tokenPath))
        = Some (existing\<lparr>t_count := t_count existing + 1,
                         t_files := (if filePath \<in> set (t_files existing) then t_files existing
                                     else t_files existing @ [filePath])\<rparr>))"
proof -
  have 1: "distinct (t_files u) \<and> length (t_files u) \<le> t_count u \<and> 1 \<le> t_count u"
    if "u \<in> set (pa_tokens (fst (analyzeProject env shorthands minPatternCount filePaths)))" for u
  proof -
    have "u \<in> snd ` set (allTokens (analyzeFiles env shorthands filePaths))"
      using that by (simp add: analyzeProject_def Let_def)
    then have "usageOk u" using analyzeFiles_ok [of env shorthands filePaths] by auto
    then show ?thesis by (simp add: usageOk_def)
  qed
  have 2: "map_of (recordToken filePath tokens (tokenPath, fallback)) (tokenKey (trim tokenPath))
        = Some (existing\<lparr>t_count := t_count existing + 1,
                         t_files := (if filePath \<in> set (t_files existing) then t_files existing
                                     else t_files existing @ [filePath])\<rparr>)"
    if ne: "trim tokenPath \<noteq> []"
      and ex: "map_of tokens (tokenKey (trim tokenPath)) = Some existing"
    using ne ex map_of_mapReplace [OF ex] by (simp add: recordToken_def Let_def)
  show ?thesis using 1 2 by blast
qed

lemma sample_tokens:
  "pa_tokens (fst (analyzeProject sampleProject False 2 sampleFiles)) = [spacingUsage, skyUsage]"
  by code_simp

text \<open>
  The theorem on the sample project, whose two tokens are each used in two files, and at
  a third use of the second token, in \<open>c.tsx\<close>.
\<close>

theorem tokenUsage_invariant_witness:
  "pa_tokens (fst (analyzeProject sampleProject False 2 sampleFiles)) = [spacingUsage, skyUsage] \<and>
   distinct (t_files skyUsage) \<and> length (t_files skyUsage) \<le> t_count skyUsage \<and>
   1 \<le> t_count skyUsage \<and>
   trim '' colors.sky.400'' \<noteq> [] \<and>
   map_of [(''spacing.4'', spacingUsage), (''colors.sky.400'', skyUsage)]
     (tokenKey (trim '' colors.sky.400'')) = Some skyUsage \<and>
   map_of (recordToken ''c.tsx'' [(''spacing.4'', spacingUsage), (''colors.sky.400'', skyUsage)]
             ('' colors.sky.400'', Some ''#38bdf8''))
     (tokenKey (trim '' colors.sky.400''))
     = Some (skyUsage\<lparr>t_count := 3, t_files := [''a.tsx'', ''b.tsx'', ''c.tsx'']\<rparr>)"
proof -
  let ?tokens = "[(''spacing.4'', spacingUsage), (''colors.sky.400'', skyUsage)]"
  have tr: "trim '' colors.sky.400'' = ''colors.sky.400''" by code_simp
  have key: "tokenKey ''colors.sky.400'' = ''colors.sky.400''" by code_simp
  have ne: "trim '' colors.sky.400'' \<noteq> []" by (simp add: tr)
  have ex: "map_of ?tokens (tokenKey (trim '' colors.sky.400'')) = Some skyUsage"
    by (simp add: tr key)
  have mem: "skyUsage \<in> set (pa_tokens (fst (analyzeProject sampleProject False 2 sampleFiles)))"
    by (simp add: sample_tokens)
  note inst = tokenUsage_invariant [of sampleProject False 2 sampleFiles "'' colors.sky.400''"
      ?tokens skyUsage "''c.tsx''" "Some ''#38bdf8''"]
  have 1: "distinct (t_files skyUsage) \<and> length (t_files skyUsage) \<le> t_count skyUsage \<and>
           1 \<le> t_count skyUsage"
    using inst mem by blast
  have "map_of (recordToken ''c.tsx'' ?tokens ('' colors.sky.400'', Some ''#38bdf8''))
          (tokenKey (trim '' colors.sky.400''))
        = Some (skyUsage\<lparr>t_count := t_count skyUsage + 1,
                  t_files := (if ''c.tsx'' \<in> set (t_files skyUsage) then t_files skyUsage
                              else t_files skyUsage @ [''c.tsx''])\<rparr>)"
    using inst ne ex by blast
  then have 2: "map_of (recordToken ''c.tsx'' ?tokens ('' colors.sky.400'', Some ''#38bdf8''))
          (tokenKey (trim '' colors.sky.400''))
        = Some (skyUsage\<lparr>t_count := 3, t_files := [''a.tsx'', ''b.tsx'', ''c.tsx'']\<rparr>)"
    by (simp add: skyUsage_def)
  show ?thesis using sample_tokens 1 ne ex 2 by blast
qed

subsection \<open>Pattern detection\<close>

lemma observed_tracked:
  "observedPattern env sh f = map_option (\<lambda>(c, s). generatePatternId c) (trackedOf env sh f)"
  by (auto simp: observedPattern_def trackedOf_def split: sum.splits option.splits prod.splits)

lemma classPatterns_analyzeFile:
  "classPatterns (analyzeFile env sh st f) =
     (case trackedOf env sh f of
        None \<Rightarrow> classPatterns st
      | Some (converted, finalStyles) \<Rightarrow>
          trackPattern (classPatterns st) (relativePath env f) converted finalStyles)"
  by (auto simp: analyzeFile_def trackedOf_def split: sum.splits option.splits prod.splits)

lemma keys_mapReplace: "map fst (mapReplace m k v) = map fst m"
  by (induction m k v rule: mapReplace.induct) auto

lemma map_of_mapReplace_full:
  "map_of (mapReplace m k v) = (if k \<in> fst ` set m then (map_of m)(k \<mapsto> v) else map_of m)"
  by (induction m k v rule: mapReplace.induct) (auto simp: fun_eq_iff)

lemma trackPattern_inv: "patInv m \<Longrightarrow> patInv (trackPattern m r c s)"
proof -
  assume inv: "patInv m"
  define h where "h = generatePatternId c"
  show ?thesis
  proof (cases "map_of m h")
    case None
    then have "h \<notin> fst ` set m" by (simp add: map_of_eq_None_iff)
    then show ?thesis using inv None
      by (auto simp: patInv_def trackPattern_def Let_def h_def)
  next
    case (Some p)
    define p' where "p' = p\<lparr>p_count := p_count p + 1,
        p_files := (if r \<in> set (p_files p) then p_files p else p_files p @ [r])\<rparr>"
    have eq: "trackPattern m r c s = mapReplace m h p'"
      using Some by (simp add: trackPattern_def Let_def h_def p'_def)
    have "(h, p) \<in> set m" using Some by (rule map_of_SomeD)
    then have "p_id p = h" using inv by (auto simp: patInv_def)
    then have idp: "p_id p' = h" by (simp add: p'_def)
    have "\<forall>(k, q) \<in> set (mapReplace m h p'). p_id q = k"
      using set_mapReplace [of m h p'] inv idp by (auto simp: patInv_def)
    then show ?thesis using inv by (simp add: eq patInv_def keys_mapReplace)
  qed
qed

lemma trackPattern_map_of:
  "map_of (trackPattern m r c s) h' =
     (if h' = generatePatternId c
      then (case map_of m h' of
              None \<Rightarrow> Some \<lparr>p_id = h', p_classes = c, p_styles = s, p_count = 1, p_files = [r]\<rparr>
            | Some p \<Rightarrow> Some (p\<lparr>p_count := p_count p + 1,
                                p_files := (if r \<in> set (p_files p) then p_files p
                                            else p_files p @ [r])\<rparr>))
      else map_of m h')"
proof (cases "map_of m (generatePatternId c)")
  case None
  then show ?thesis by (auto simp: trackPattern_def Let_def map_add_def split: option.splits)
next
  case (Some p)
  then have "(generatePatternId c, p) \<in> set m" by (rule map_of_SomeD)
  then have "generatePatternId c \<in> fst ` set m" by force
  then show ?thesis using Some by (auto simp: trackPattern_def Let_def map_of_mapReplace_full)
qed

lemma track_count:
  "countOf (trackPattern m r c s) h = countOf m h + (if h = generatePatternId c then 1 else 0)"
  by (simp add: countOf_def trackPattern_map_of split: option.splits)

lemma track_files:
  "filesOf (trackPattern m r c s) h =
     (if h = generatePatternId c then setAdd (filesOf m h) r else filesOf m h)"
  by (simp add: filesOf_def trackPattern_map_of setAdd_def split: option.splits)

lemma track_none:
  "map_of (trackPattern m r c s) h = None \<longleftrightarrow> map_of m h = None \<and> h \<noteq> generatePatternId c"
  by (simp add: trackPattern_map_of split: option.splits)

lemma observers_Cons:
  "observers env sh (f # fs) h =
     (if observedPattern env sh f = Some h then f # observers env sh fs h
      else observers env sh fs h)"
  by (simp add: observers_def)

lemma step_inv: "patInv (classPatterns st) \<Longrightarrow> patInv (classPatterns (analyzeFile env sh st f))"
  by (simp add: classPatterns_analyzeFile trackPattern_inv split: option.splits prod.splits)

lemma step_count:
  "countOf (classPatterns (analyzeFile env sh st f)) h =
     countOf (classPatterns st) h + (if observedPattern env sh f = Some h then 1 else 0)"
  by (auto simp: classPatterns_analyzeFile observed_tracked track_count
           split: option.splits prod.splits)

lemma step_files:
  "filesOf (classPatterns (analyzeFile env sh st f)) h =
     (if observedPattern env sh f = Some h
      then setAdd (filesOf (classPatterns st) h) (relativePath env f)
      else filesOf (classPatterns st) h)"
  by (auto simp: classPatterns_analyzeFile observed_tracked track_files
           split: option.splits prod.splits)

lemma step_none:
  "map_of (classPatterns (analyzeFile env sh st f)) h = None \<longleftrightarrow>
     map_of (classPatterns st) h = None \<and> observedPattern env sh f \<noteq> Some h"
  by (auto simp: classPatterns_analyzeFile observed_tracked track_none
           split: option.splits prod.splits)

lemma fold_patterns:
  "patInv (classPatterns st) \<Longrightarrow>
   patInv (classPatterns (foldl (analyzeFile env sh) st fs)) \<and>
   countOf (classPatterns (foldl (analyzeFile env sh) st fs)) h
     = countOf (classPatterns st) h + length (observers env sh fs h) \<and>
   filesOf (classPatterns (foldl (analyzeFile env sh) st fs)) h
     = foldl setAdd (filesOf (classPatterns st) h) (map (relativePath env) (observers env sh fs h)) \<and>
   (map_of (classPatterns (foldl (analyzeFile env sh) st fs)) h = None
      \<longleftrightarrow> map_of (classPatterns st) h = None \<and> observers env sh fs h = [])"
proof (induction fs arbitrary: st)
  case Nil
  then show ?case by (simp add: observers_def)
next
  case (Cons f fs)
  have inv: "patInv (classPatterns (analyzeFile env sh st f))"
    using Cons.prems by (rule step_inv)
  show ?case
    using Cons.IH [OF inv]
    by (simp add: observers_Cons step_count step_files step_none)
qed

lemma analyzeFiles_patterns:
  "patInv (classPatterns (analyzeFiles env sh fs))"
  "countOf (classPatterns (analyzeFiles env sh fs)) h = length (observers env sh fs h)"
  "filesOf (classPatterns (analyzeFiles env sh fs)) h
     = foldl setAdd [] (map (relativePath env) (observers env sh fs h))"
  "map_of (classPatterns (analyzeFiles env sh fs)) h = None \<longleftrightarrow> observers env sh fs h = []"
  using fold_patterns [of "\<lparr>fileAnalyses = [], allTokens = [], classPatterns = [], warnings = []\<rparr>"
      env sh fs h]
  by (simp_all add: analyzeFiles_def patInv_def countOf_def filesOf_def)

lemma pa_patterns_set:
  "set (pa_patterns (fst (analyzeProject env sh minC fs)))
     = {p \<in> snd ` set (classPatterns (analyzeFiles env sh fs)). minC \<le> int (p_count p)}"
  by (auto simp: analyzeProject_def Let_def detectPatterns_def)

lemma inv_lookup:
  "patInv m \<Longrightarrow> p \<in> snd ` set m \<longleftrightarrow> map_of m (p_id p) = Some p"
proof
  assume inv: "patInv m" and "p \<in> snd ` set m"
  then obtain k where kp: "(k, p) \<in> set m" by force
  then have "p_id p = k" using inv by (auto simp: patInv_def)
  then show "map_of m (p_id p) = Some p" using kp inv by (simp add: patInv_def)
next
  assume "patInv m" and "map_of m (p_id p) = Some p"
  then have "(p_id p, p) \<in> set m" by (simp add: map_of_SomeD)
  then show "p \<in> snd ` set m" by force
qed

text \<open>
  C5. Whatever the threshold \<open>minPatternCount\<close> and the pattern id: the id is among the
  detected patterns of the analysis exactly when it is observed at least once and at least
  \<open>minPatternCount\<close> times in the files; so an id observed \<open>minPatternCount - 1\<close> times
  is absent, and an id observed exactly \<open>minPatternCount\<close> times (and at all) is
  present. Every detected pattern's count is the number of files it is observed in: each
  observation after the first adds one; and its file list is the relative paths of those
  files in order, one more for every observation, when no two files of the list have the
  same relative path.
\<close>

theorem pattern_promotion_threshold:
  "(patternId \<in> p_id ` set (pa_patterns (fst (analyzeProject env shorthands minPatternCount filePaths)))
      \<longleftrightarrow> 0 < length (observers env shorthands filePaths patternId)
          \<and> minPatternCount \<le> int (length (observers env shorthands filePaths patternId))) \<and>
   (int (length (observers env shorthands filePaths patternId)) = minPatternCount - 1 \<longrightarrow>
      patternId \<notin> p_id ` set (pa_patterns (fst (analyzeProject env shorthands minPatternCount filePaths)))) \<and>
   (0 < length (observers env shorthands filePaths patternId) \<longrightarrow>
    int (length (observers env shorthands filePaths patternId)) = minPatternCount \<longrightarrow>
      patternId \<in> p_id ` set (pa_patterns (fst (analyzeProject env shorthands minPatternCount filePaths)))) \<and>
   (\<forall>p \<in> set (pa_patterns (fst (analyzeProject env shorthands minPatternCount filePaths))).
      p_count p = length (observers env shorthands filePaths (p_id p)) \<and>
      (distinct (map (relativePath env) filePaths) \<longrightarrow>
         p_files p = map (relativePath env) (observers env shorthands filePaths (p_id p))))"
proof -
  define cp where "cp = classPatterns (analyzeFiles env shorthands filePaths)"
  define n where "n = (\<lambda>h. length (observers env shorthands filePaths h))"
  let ?pa = "pa_patterns (fst (analyzeProject env shorthands minPatternCount filePaths))"
  have inv: "patInv cp" unfolding cp_def by (rule analyzeFiles_patterns(1))
  have cnt: "countOf cp h = n h" for h
    unfolding cp_def n_def by (rule analyzeFiles_patterns(2))
  have none: "map_of cp h = None \<longleftrightarrow> n h = 0" for h
    unfolding cp_def n_def using analyzeFiles_patterns(4) [of env shorthands filePaths h] by simp
  have pa: "set ?pa = {p \<in> snd ` set cp. minPatternCount \<le> int (p_count p)}"
    unfolding cp_def by (rule pa_patterns_set)
  have mem: "h \<in> p_id ` set ?pa \<longleftrightarrow> 0 < n h \<and> minPatternCount \<le> int (n h)" for h
  proof
    assume "h \<in> p_id ` set ?pa"
    then obtain p where p: "p \<in> snd ` set cp" "minPatternCount \<le> int (p_count p)" "p_id p = h"
      using pa by auto
    then have look: "map_of cp h = Some p" using inv_lookup [OF inv, of p] by simp
    then have "n h = p_count p" using cnt [of h] by (simp add: countOf_def)
    moreover have "n h \<noteq> 0" using look none [of h] by simp
    ultimately show "0 < n h \<and> minPatternCount \<le> int (n h)" using p(2) by simp
  next
    assume a: "0 < n h \<and> minPatternCount \<le> int (n h)"
    then obtain p where look: "map_of cp h = Some p" using none [of h] by (cases "map_of cp h") auto
    then have c: "p_count p = n h" using cnt [of h] by (simp add: countOf_def)
    have "(h, p) \<in> set cp" using look by (rule map_of_SomeD)
    then have "p \<in> snd ` set cp" "p_id p = h" using inv by (force, auto simp: patInv_def)
    then show "h \<in> p_id ` set ?pa" using pa a c by force
  qed
  have each: "p_count p = n (p_id p) \<and>
      (distinct (map (relativePath env) filePaths) \<longrightarrow>
         p_files p = map (relativePath env) (observers env shorthands filePaths (p_id p)))"
    if "p \<in> set ?pa" for p
  proof -
    have "p \<in> snd ` set cp" using that pa by simp
    then have look: "map_of cp (p_id p) = Some p" using inv_lookup [OF inv, of p] by simp
    have c: "p_count p = n (p_id p)" using cnt [of "p_id p"] look by (simp add: countOf_def)
    have f: "p_files p = foldl setAdd [] (map (relativePath env) (observers env shorthands filePaths (p_id p)))"
      using analyzeFiles_patterns(3) [of env shorthands filePaths "p_id p"] look
      by (simp add: filesOf_def cp_def)
    have "distinct (map (relativePath env) (observers env shorthands filePaths (p_id p)))"
      if "distinct (map (relativePath env) filePaths)"
      using that unfolding observers_def by (rule distinct_map_filter)
    then show ?thesis using c f foldl_setAdd [of "[]"] by simp
  qed
  show ?thesis using mem [of patternId] each unfolding n_def by auto
qed

text \<open>
  The theorem on the sample project: the pattern of \<open>a.tsx\<close> and \<open>b.tsx\<close> is observed
  twice; it is detected with threshold 2 and not with threshold 3.
\<close>

theorem pattern_promotion_threshold_witness:
  "observers sampleProject False sampleFiles ''dark:hover:text-sky-400|md:p-4''
     = [''/app/a.tsx'', ''/app/b.tsx''] \<and>
   ''dark:hover:text-sky-400|md:p-4''
     \<in> p_id ` set (pa_patterns (fst (analyzeProject sampleProject False 2 sampleFiles))) \<and>
   ''dark:hover:text-sky-400|md:p-4''
     \<notin> p_id ` set (pa_patterns (fst (analyzeProject sampleProject False 3 sampleFiles))) \<and>
   distinct (map (relativePath sampleProject) sampleFiles) \<and>
   map (\<lambda>p. (p_id p, p_count p, p_files p))
     (pa_patterns (fst (analyzeProject sampleProject False 2 sampleFiles)))
     = [(''dark:hover:text-sky-400|md:p-4'', 2, [''a.tsx'', ''b.tsx''])]"
proof -
  let ?h = "''dark:hover:text-sky-400|md:p-4''"
  define ps where "ps = pa_patterns (fst (analyzeProject sampleProject False 2 sampleFiles))"
  have obs: "observers sampleProject False sampleFiles ?h = [''/app/a.tsx'', ''/app/b.tsx'']"
    by code_simp
  have rel: "relativePath sampleProject ''/app/a.tsx'' = ''a.tsx''"
    "relativePath sampleProject ''/app/b.tsx'' = ''b.tsx''"
    by code_simp+
  have dist: "distinct (map (relativePath sampleProject) sampleFiles)" by code_simp
  have ids: "map p_id ps = [?h]" unfolding ps_def by code_simp
  then obtain p where p: "ps = [p]" "p_id p = ?h" by auto
  note at2 = pattern_promotion_threshold [of ?h sampleProject False 2 sampleFiles]
  note at3 = pattern_promotion_threshold [of ?h sampleProject False 3 sampleFiles]
  have present: "?h \<in> p_id ` set ps"
    using at2 obs unfolding ps_def by simp
  have absent: "?h \<notin> p_id ` set (pa_patterns (fst (analyzeProject sampleProject False 3 sampleFiles)))"
    using at3 obs by simp
  have "p \<in> set ps" using p(1) by simp
  then have "p_count p = length (observers sampleProject False sampleFiles (p_id p)) \<and>
      (distinct (map (relativePath sampleProject) sampleFiles) \<longrightarrow>
         p_files p = map (relativePath sampleProject) (observers sampleProject False sampleFiles (p_id p)))"
    using at2 unfolding ps_def by blast
  then have "p_count p = 2" "p_files p = [''a.tsx'', ''b.tsx'']"
    using dist by (simp_all add: p(2) obs rel)
  then have "map (\<lambda>p. (p_id p, p_count p, p_files p)) ps = [(?h, 2, [''a.tsx'', ''b.tsx''])]"
    by (simp add: p)
  then show ?thesis using obs present absent dist unfolding ps_def by simp
qed

subsection \<open>Failing files\<close>

lemma step_same:
  "sameCollections a b \<Longrightarrow>
   sameCollections (analyzeFile env sh a f) (analyzeFile env sh b f)"
proof (cases "readFileForAnalysis env sh f")
  case (Inl e)
  assume "sameCollections a b"
  then show ?thesis using Inl by (simp add: sameCollections_def analyzeFile_def)
next
  case (Inr t)
  assume s: "sameCollections a b"
  obtain classes converted unconverted tracked where t: "t = (classes, converted, unconverted, tracked)"
    by (cases t) auto
  have eqs: "fileAnalyses a = fileAnalyses b" "allTokens a = allTokens b"
    "classPatterns a = classPatterns b"
    using s by (simp_all add: sameCollections_def)
  show ?thesis using Inr t
    by (simp add: sameCollections_def analyzeFile_def eqs split: option.splits)
qed

lemma fold_same:
  "sameCollections a b \<Longrightarrow>
   sameCollections (foldl (analyzeFile env sh) a fs) (foldl (analyzeFile env sh) b fs)"
proof (induction fs arbitrary: a b)
  case Nil
  then show ?case by simp
next
  case (Cons f fs)
  show ?case unfolding foldl_Cons by (rule Cons.IH) (rule step_same [OF Cons.prems])
qed

lemma fail_same:
  "readFileForAnalysis env sh f = Inl e \<Longrightarrow> sameCollections (analyzeFile env sh st f) st"
  by (simp add: sameCollections_def analyzeFile_def)

lemma fail_warning:
  "readFileForAnalysis env sh f = Inl e \<Longrightarrow>
   warnings (analyzeFile env sh st f)
     = warnings st @ [''Warning: Could not analyze '' @ f @ '': '' @ e]"
  by (simp add: analyzeFile_def)

lemma warnings_step:
  "\<exists>ws. warnings (analyzeFile env sh st f) = warnings st @ ws"
proof (cases "readFileForAnalysis env sh f")
  case (Inl e)
  then show ?thesis by (simp add: analyzeFile_def)
next
  case (Inr t)
  obtain classes converted unconverted tracked where t: "t = (classes, converted, unconverted, tracked)"
    by (cases t) auto
  show ?thesis using Inr t by (simp add: analyzeFile_def)
qed

lemma warnings_fold:
  "\<exists>ws. warnings (foldl (analyzeFile env sh) st fs) = warnings st @ ws"
proof (induction fs arbitrary: st)
  case Nil
  then show ?case by simp
next
  case (Cons f fs)
  obtain ws1 where 1: "warnings (analyzeFile env sh st f) = warnings st @ ws1"
    using warnings_step by blast
  obtain ws2 where 2: "warnings (foldl (analyzeFile env sh) (analyzeFile env sh st f) fs)
      = warnings (analyzeFile env sh st f) @ ws2"
    using Cons.IH by blast
  show ?case using 1 2 by simp
qed

lemma analysis_same:
  assumes "sameCollections (analyzeFiles env sh fs) (analyzeFiles env sh fs')"
  shows "fst (analyzeProject env sh minC fs) = fst (analyzeProject env sh minC fs')"
  using assms by (simp add: analyzeProject_def Let_def sameCollections_def)

lemma failing_file_skipped:
  assumes "readFileForAnalysis env sh f = Inl e"
  shows "fst (analyzeProject env sh minC (fs1 @ f # fs2)) = fst (analyzeProject env sh minC (fs1 @ fs2))"
proof (rule analysis_same)
  let ?s0 = "\<lparr>fileAnalyses = [], allTokens = [], classPatterns = [], warnings = []\<rparr>"
  let ?s1 = "foldl (analyzeFile env sh) ?s0 fs1"
  have "sameCollections (analyzeFile env sh ?s1 f) ?s1" using assms by (rule fail_same)
  then have "sameCollections (foldl (analyzeFile env sh) (analyzeFile env sh ?s1 f) fs2)
                             (foldl (analyzeFile env sh) ?s1 fs2)"
    by (rule fold_same)
  then show "sameCollections (analyzeFiles env sh (fs1 @ f # fs2)) (analyzeFiles env sh (fs1 @ fs2))"
    by (simp add: analyzeFiles_def)
qed

lemma failing_file_warned:
  assumes "readFileForAnalysis env sh f = Inl e"
  shows "(''Warning: Could not analyze '' @ f @ '': '' @ e)
           \<in> set (snd (analyzeProject env sh minC (fs1 @ f # fs2)))"
proof -
  let ?s0 = "\<lparr>fileAnalyses = [], allTokens = [], classPatterns = [], warnings = []\<rparr>"
  let ?s1 = "foldl (analyzeFile env sh) ?s0 fs1"
  let ?w = "''Warning: Could not analyze '' @ f @ '': '' @ e"
  have "warnings (analyzeFile env sh ?s1 f) = warnings ?s1 @ [?w]"
    using assms by (rule fail_warning)
  moreover obtain ws where "warnings (foldl (analyzeFile env sh) (analyzeFile env sh ?s1 f) fs2)
      = warnings (analyzeFile env sh ?s1 f) @ ws"
    using warnings_fold by blast
  ultimately have "?w \<in> set (warnings (analyzeFiles env sh (fs1 @ f # fs2)))"
    by (simp add: analyzeFiles_def)
  then show ?thesis by (simp add: analyzeProject_def Let_def)
qed

lemma chunkArray_concat:
  "0 < n \<Longrightarrow> \<exists>chunks. chunkArray xs n = Some chunks \<and> concat chunks = xs"
proof (induction xs n rule: chunkArray.induct)
  case (1 array chunkSize)
  show ?case
  proof (cases "array = []")
    case True
    then show ?thesis by (subst chunkArray.simps) simp
  next
    case False
    obtain chunks where c: "chunkArray (drop chunkSize array) chunkSize = Some chunks"
      "concat chunks = drop chunkSize array"
      using 1 False by auto
    have "chunkArray array chunkSize = Some (take chunkSize array # chunks)"
      using False 1(2) c(1) by (subst chunkArray.simps) simp
    then show ?thesis using c(2) by simp
  qed
qed

lemma tryProcessFile_status:
  assumes "tryProcessFile env opts f = Inr r"
  shows "r_status r \<noteq> Error \<and> r_inputPath r = f"
  using assms unfolding tryProcessFile_def Let_def
  by (auto split: sum.splits option.splits prod.splits if_splits)

lemma processFile_error_iff:
  "r_status (processFile env opts f) = Error \<longleftrightarrow> isl (tryProcessFile env opts f)"
proof (cases "tryProcessFile env opts f")
  case (Inl e)
  then show ?thesis by (simp add: processFile_def)
next
  case (Inr r)
  then show ?thesis using tryProcessFile_status [OF Inr] by (simp add: processFile_def)
qed

lemma batch_results:
  assumes "0 < concurrency"
  shows "\<exists>result. batchProcess env opts concurrency files = Some result \<and>
           b_files result = map (processFile env opts) files \<and>
           b_summary result = summarize (map (processFile env opts) files)"
proof (cases "files = []")
  case True
  then show ?thesis by (simp add: batchProcess_def summarize_def)
next
  case False
  obtain chunks where c: "chunkArray files concurrency = Some chunks" "concat chunks = files"
    using chunkArray_concat [OF assms] by blast
  have "concat (map (map (processFile env opts)) chunks) = map (processFile env opts) (concat chunks)"
    by (simp add: map_concat)
  then show ?thesis using False c by (simp add: batchProcess_def Let_def)
qed

lemma errors_count:
  "s_errors (summarize (map (processFile env opts) files))
     = length (filter (\<lambda>f. isl (tryProcessFile env opts f)) files)"
  by (simp add: summarize_def filter_map o_def processFile_error_iff)

lemma fileAnalyses_step:
  "map fa_filePath (fileAnalyses (analyzeFile env sh st f))
     = map fa_filePath (fileAnalyses st)
       @ (if isl (readFileForAnalysis env sh f) then [] else [relativePath env f])"
proof (cases "readFileForAnalysis env sh f")
  case (Inl e)
  then show ?thesis by (simp add: analyzeFile_def)
next
  case (Inr t)
  obtain classes converted unconverted tracked where t: "t = (classes, converted, unconverted, tracked)"
    by (cases t) auto
  show ?thesis using Inr t by (simp add: analyzeFile_def)
qed

lemma fileAnalyses_fold:
  "map fa_filePath (fileAnalyses (foldl (analyzeFile env sh) st fs))
     = map fa_filePath (fileAnalyses st)
       @ map (relativePath env) (filter (\<lambda>f. \<not> isl (readFileForAnalysis env sh f)) fs)"
proof (induction fs arbitrary: st)
  case Nil
  then show ?case by simp
next
  case (Cons f fs)
  show ?case unfolding foldl_Cons Cons.IH fileAnalyses_step by simp
qed

lemma pa_files_analyzed:
  "map fa_filePath (pa_files (fst (analyzeProject env sh minC fs)))
     = map (relativePath env) (filter (\<lambda>f. \<not> isl (readFileForAnalysis env sh f)) fs)"
  using fileAnalyses_fold [of env sh
      "\<lparr>fileAnalyses = [], allTokens = [], classPatterns = [], warnings = []\<rparr>" fs]
  by (simp add: analyzeProject_def Let_def analyzeFiles_def)

text \<open>
  C7. A file that throws does not abort the run, and the other files are processed as
  if it were not there; how the failure is recorded differs between the two loops.
  \<^item> \<open>batchProcess\<close> with a positive \<open>concurrency\<close> returns one result per file, in
    order, each the result of \<open>processFile\<close> on that file alone; the error tally of the
    summary is the number of files whose processing throws.
  \<^item> When processing a file throws, its result has the status \<open>Error\<close> and carries the
    error text; a file that does not throw never has that status.
  \<^item> When a file of \<open>analyzeProject\<close> throws, the analysis is the one of the file list
    without that file, and a line naming the file and the error is written to the
    console. The analyzed files of the result are the files that do not throw: a failing
    file has no entry, no error field and no tally in the analysis.
\<close>

theorem file_failure_is_local:
  "(0 < concurrency \<longrightarrow>
      (\<exists>result. batchProcess benv opts concurrency files = Some result \<and>
         b_files result = map (processFile benv opts) files \<and>
         s_total (b_summary result) = length files \<and>
         s_errors (b_summary result)
           = length (filter (\<lambda>inputPath. isl (tryProcessFile benv opts inputPath)) files))) \<and>
   (tryProcessFile benv opts inputPath = Inl e \<longrightarrow>
      r_inputPath (processFile benv opts inputPath) = inputPath \<and>
      r_status (processFile benv opts inputPath) = Error \<and>
      r_error (processFile benv opts inputPath) = Some e) \<and>
   (tryProcessFile benv opts inputPath = Inr r \<longrightarrow>
      processFile benv opts inputPath = r \<and> r_status r \<noteq> Error) \<and>
   (readFileForAnalysis env shorthands filePath = Inl err \<longrightarrow>
      fst (analyzeProject env shorthands minPatternCount (before @ filePath # after))
        = fst (analyzeProject env shorthands minPatternCount (before @ after)) \<and>
      (''Warning: Could not analyze '' @ filePath @ '': '' @ err)
        \<in> set (snd (analyzeProject env shorthands minPatternCount (before @ filePath # after)))) \<and>
   map fa_filePath (pa_files (fst (analyzeProject env shorthands minPatternCount filePaths)))
     = map (relativePath env)
         (filter (\<lambda>filePath. \<not> isl (readFileForAnalysis env shorthands filePath)) filePaths)"
proof -
  have 1: "\<exists>result. batchProcess benv opts concurrency files = Some result \<and>
         b_files result = map (processFile benv opts) files \<and>
         s_total (b_summary result) = length files \<and>
         s_errors (b_summary result)
           = length (filter (\<lambda>inputPath. isl (tryProcessFile benv opts inputPath)) files)"
    if pos: "0 < concurrency"
  proof -
    obtain result where r: "batchProcess benv opts concurrency files = Some result"
      "b_files result = map (processFile benv opts) files"
      "b_summary result = summarize (map (processFile benv opts) files)"
      using batch_results [OF pos] by blast
    have "s_total (b_summary result) = length files" using r(3) by (simp add: summarize_def)
    then show ?thesis using r errors_count [of benv opts files] by auto
  qed
  have 2: "r_inputPath (processFile benv opts inputPath) = inputPath \<and>
      r_status (processFile benv opts inputPath) = Error \<and>
      r_error (processFile benv opts inputPath) = Some e"
    if "tryProcessFile benv opts inputPath = Inl e"
    using that by (simp add: processFile_def)
  have 3: "processFile benv opts inputPath = r \<and> r_status r \<noteq> Error"
    if "tryProcessFile benv opts inputPath = Inr r"
    using that tryProcessFile_status [OF that] by (simp add: processFile_def)
  have 4: "fst (analyzeProject env shorthands minPatternCount (before @ filePath # after))
        = fst (analyzeProject env shorthands minPatternCount (before @ after)) \<and>
      (''Warning: Could not analyze '' @ filePath @ '': '' @ err)
        \<in> set (snd (analyzeProject env shorthands minPatternCount (before @ filePath # after)))"
    if "readFileForAnalysis env shorthands filePath = Inl err"
    using failing_file_skipped [OF that] failing_file_warned [OF that] by blast
  show ?thesis using 1 2 3 4 pa_files_analyzed [of env shorthands minPatternCount filePaths]
    by blast
qed

text \<open>
  The theorem on the sample batch, whose second file cannot be read, and on the sample
  project, whose file \<open>bad.tsx\<close> cannot be read.
\<close>

theorem file_failure_is_local_witness:
  "0 < (2::nat) \<and>
   tryProcessFile sampleBatch sampleOptions ''gone.tsx'' = Inl ''ENOENT: no such file or directory'' \<and>
   map_option (\<lambda>result. (map r_status (b_files result), s_total (b_summary result),
                          s_errors (b_summary result)))
     (batchProcess sampleBatch sampleOptions 2 [''page.html'', ''gone.tsx'', ''app.tsx''])
     = Some ([Success, Error, Success], 3, 1) \<and>
   r_status (processFile sampleBatch sampleOptions ''gone.tsx'') = Error \<and>
   r_error (processFile sampleBatch sampleOptions ''gone.tsx'')
     = Some ''ENOENT: no such file or directory'' \<and>
   \<not> isl (tryProcessFile sampleBatch sampleOptions ''app.tsx'') \<and>
   r_status (processFile sampleBatch sampleOptions ''app.tsx'') = Success \<and>
   readFileForAnalysis sampleProject False ''/app/bad.tsx''
     = Inl ''Error: ENOENT: no such file or directory'' \<and>
   fst (analyzeProject sampleProject False 2
          ([''/app/a.tsx''] @ ''/app/bad.tsx'' # [''/app/b.tsx'', ''/app/c.tsx'']))
     = fst (analyzeProject sampleProject False 2 ([''/app/a.tsx''] @ [''/app/b.tsx'', ''/app/c.tsx'']))"
proof -
  let ?files = "[''page.html'', ''gone.tsx'', ''app.tsx'']"
  let ?e = "''ENOENT: no such file or directory''"
  let ?err = "''Error: ENOENT: no such file or directory''"
  have gone: "tryProcessFile sampleBatch sampleOptions ''gone.tsx'' = Inl ?e" by code_simp
  have bad: "readFileForAnalysis sampleProject False ''/app/bad.tsx'' = Inl ?err" by code_simp
  have app: "\<not> isl (tryProcessFile sampleBatch sampleOptions ''app.tsx'')" by code_simp
  have appS: "r_status (processFile sampleBatch sampleOptions ''app.tsx'') = Success" by code_simp
  have statuses: "map r_status (map (processFile sampleBatch sampleOptions) ?files)
      = [Success, Error, Success]" by code_simp
  have failed: "length (filter (\<lambda>inputPath. isl (tryProcessFile sampleBatch sampleOptions inputPath)) ?files) = 1"
    by code_simp
  note inst = file_failure_is_local [where benv = sampleBatch and opts = sampleOptions
      and concurrency = 2 and files = ?files and inputPath = "''gone.tsx''" and e = ?e
      and env = sampleProject and shorthands = False and filePath = "''/app/bad.tsx''"
      and err = ?err and minPatternCount = 2 and before = "[''/app/a.tsx'']"
      and after = "[''/app/b.tsx'', ''/app/c.tsx'']"]
  have "\<exists>result. batchProcess sampleBatch sampleOptions 2 ?files = Some result \<and>
         b_files result = map (processFile sampleBatch sampleOptions) ?files \<and>
         s_total (b_summary result) = length ?files \<and>
         s_errors (b_summary result)
           = length (filter (\<lambda>inputPath. isl (tryProcessFile sampleBatch sampleOptions inputPath)) ?files)"
    using inst by simp
  then obtain result where res: "batchProcess sampleBatch sampleOptions 2 ?files = Some result"
    "b_files result = map (processFile sampleBatch sampleOptions) ?files"
    "s_total (b_summary result) = length ?files"
    "s_errors (b_summary result)
       = length (filter (\<lambda>inputPath. isl (tryProcessFile sampleBatch sampleOptions inputPath)) ?files)"
    by blast
  have batch: "map_option (\<lambda>result. (map r_status (b_files result), s_total (b_summary result),
                          s_errors (b_summary result)))
     (batchProcess sampleBatch sampleOptions 2 ?files) = Some ([Success, Error, Success], 3, 1)"
    unfolding res(1) using res(2,3,4) statuses failed by simp
  have rec: "r_status (processFile sampleBatch sampleOptions ''gone.tsx'') = Error \<and>
      r_error (processFile sampleBatch sampleOptions ''gone.tsx'') = Some ?e"
    using inst gone by blast
  have same: "fst (analyzeProject sampleProject False 2
          ([''/app/a.tsx''] @ ''/app/bad.tsx'' # [''/app/b.tsx'', ''/app/c.tsx'']))
     = fst (analyzeProject sampleProject False 2 ([''/app/a.tsx''] @ [''/app/b.tsx'', ''/app/c.tsx'']))"
    using inst bad by blast
  show ?thesis using gone batch rec app appS bad same by simp
qed

text \<open>
  The analysis of a file list with a file that throws is equal to the analysis of the
  list without it: nothing in the result records the failure.
\<close>

theorem analyzeProject_failure_unrecorded_counterexample:
  "isl (readFileForAnalysis sampleProject False ''/app/bad.tsx'') \<and>
   map fa_filePath (pa_files (fst (analyzeProject sampleProject False 2 [''/app/bad.tsx'', ''/app/c.tsx''])))
     = [''c.tsx''] \<and>
   totalFiles (pa_summary (fst (analyzeProject sampleProject False 2 [''/app/bad.tsx'', ''/app/c.tsx'']))) = 1 \<and>
   fst (analyzeProject sampleProject False 2 [''/app/bad.tsx'', ''/app/c.tsx''])
     = fst (analyzeProject sampleProject False 2 [''/app/c.tsx''])"
  by code_simp

subsection \<open>The effort estimate\<close>

lemma floorlog_pos: "0 < n \<Longrightarrow> 0 < floorlog 2 n"
  by (simp add: floorlog_def)

lemma ilog2_bounds:
  assumes "0 < x"
  shows "2 powi (ilog2 x) \<le> x" and "x < 2 powi (ilog2 x + 1)"
proof -
  have "2 powi (ilog2 x) \<le> x \<and> x < 2 powi (ilog2 x + 1)"
  proof (cases "1 \<le> x")
    case True
    define n where "n = nat \<lfloor>x\<rfloor>"
    have n: "0 < n" using True by (simp add: n_def)
    obtain k where fl: "floorlog 2 n = Suc k"
      using floorlog_pos [OF n] gr0_implies_Suc by blast
    have b: "2 ^ k \<le> n" "n < 2 ^ Suc k"
      using floorlog_bounds [of n 2] n by (simp_all add: fl del: power_Suc)
    have e: "ilog2 x = int k" using True by (simp add: ilog2_def n_def [symmetric] fl)
    have fx: "of_int \<lfloor>x\<rfloor> \<le> x" "x < of_int \<lfloor>x\<rfloor> + 1" by linarith+
    have "(of_nat n :: rat) = of_int \<lfloor>x\<rfloor>" using True by (simp add: n_def)
    then have nx: "of_nat n \<le> x" "x < of_nat n + 1" using fx by simp_all
    have lo: "(2::rat) ^ k \<le> of_nat n"
      using b(1) by (metis of_nat_le_iff of_nat_numeral of_nat_power)
    have hi: "(of_nat n :: rat) + 1 \<le> 2 ^ Suc k"
    proof -
      have "n + 1 \<le> 2 ^ Suc k" using b(2) by simp
      then have "(of_nat (n + 1) :: rat) \<le> of_nat (2 ^ Suc k)" by (simp only: of_nat_le_iff)
      then show ?thesis by simp
    qed
    have p1: "(2::rat) powi (ilog2 x) = 2 ^ k" by (simp add: e power_int_of_nat)
    have "ilog2 x + 1 = int (Suc k)" by (simp add: e)
    then have p2: "(2::rat) powi (ilog2 x + 1) = 2 ^ Suc k" by (simp only: power_int_of_nat)
    have "(2::rat) ^ k \<le> x" using lo nx(1) by linarith
    moreover have "x < 2 ^ Suc k" using hi nx(2) by linarith
    ultimately show ?thesis unfolding p1 p2 by blast
  next
    case False
    define y where "y = 1 / x"
    define c where "c = nat (\<lceil>y\<rceil> - 1)"
    have y1: "1 < y" using False assms by (simp add: y_def)
    have cpos: "0 < \<lceil>y\<rceil> - 1" using y1 by (simp add: less_ceiling_iff)
    have c: "0 < c" using cpos by (simp add: c_def)
    have cy: "of_nat c < y" "y \<le> of_nat c + 1"
    proof -
      have "of_int (\<lceil>y\<rceil> - 1) < y" by (metis ceiling_correct of_int_diff of_int_1)
      moreover have "(of_nat c :: rat) = of_int (\<lceil>y\<rceil> - 1)" using cpos by (simp add: c_def)
      ultimately show "of_nat c < y" by simp
      have "y \<le> of_int \<lceil>y\<rceil>" by (rule le_of_int_ceiling)
      then show "y \<le> of_nat c + 1" using \<open>(of_nat c :: rat) = of_int (\<lceil>y\<rceil> - 1)\<close> by simp
    qed
    obtain k where fl: "floorlog 2 c = Suc k"
      using floorlog_pos [OF c] gr0_implies_Suc by blast
    have b: "2 ^ k \<le> c" "c < 2 ^ Suc k"
      using floorlog_bounds [of c 2] c by (simp_all add: fl del: power_Suc)
    have e: "ilog2 x = - int (Suc k)"
      using False by (simp add: ilog2_def y_def [symmetric] c_def [symmetric] fl del: of_nat_Suc)
    have lo: "(2::rat) ^ k \<le> of_nat c" using b(1) by (metis of_nat_le_iff of_nat_numeral of_nat_power)
    have hi: "(of_nat c :: rat) + 1 \<le> 2 ^ Suc k"
    proof -
      have "c + 1 \<le> 2 ^ Suc k" using b(2) by simp
      then have "(of_nat (c + 1) :: rat) \<le> of_nat (2 ^ Suc k)" by (simp only: of_nat_le_iff)
      then show ?thesis by simp
    qed
    have yhi: "y \<le> 2 ^ Suc k" using cy(2) hi by linarith
    have ylo: "2 ^ k < y" using cy(1) lo by linarith
    have p1: "(2::rat) powi (- int (Suc k)) = 1 / 2 ^ Suc k"
      by (simp add: power_int_minus field_simps del: power_Suc of_nat_Suc)
    have p2: "(2::rat) powi (- int (Suc k) + 1) = 1 / 2 ^ k"
    proof -
      have "- int (Suc k) + 1 = - int k" by simp
      then have "(2::rat) powi (- int (Suc k) + 1) = 2 powi (- int k)" by (simp only:)
      also have "\<dots> = 1 / 2 ^ k" by (simp add: power_int_minus power_int_of_nat field_simps)
      finally show ?thesis .
    qed
    have "1 / 2 ^ Suc k \<le> x"
    proof -
      have "1 / x \<le> 2 ^ Suc k" using yhi by (simp add: y_def)
      then show ?thesis using assms by (simp add: field_simps del: power_Suc)
    qed
    moreover have "x < 1 / 2 ^ k"
    proof -
      have "2 ^ k < 1 / x" using ylo by (simp add: y_def)
      then show ?thesis using assms by (simp add: field_simps)
    qed
    ultimately show ?thesis unfolding e p1 p2 by simp
  qed
  then show "2 powi (ilog2 x) \<le> x" and "x < 2 powi (ilog2 x + 1)" by simp_all
qed

lemma roundHalfEven_error: "\<bar>of_int (roundHalfEven q) - q\<bar> \<le> 1 / 2"
proof -
  have "of_int \<lfloor>q\<rfloor> \<le> q" "q < of_int \<lfloor>q\<rfloor> + 1" by linarith+
  then show ?thesis by (auto simp: roundHalfEven_def Let_def)
qed

lemma roundHalfEven_lower: "of_int lo \<le> q \<Longrightarrow> lo \<le> roundHalfEven q"
proof -
  assume "of_int lo \<le> q"
  then have "lo \<le> \<lfloor>q\<rfloor>" by (simp add: le_floor_iff)
  then show ?thesis by (auto simp: roundHalfEven_def Let_def)
qed

lemma roundHalfEven_of_int: "roundHalfEven (of_int n) = n"
  by (simp add: roundHalfEven_def)

lemma roundHalfEven_upper: "q \<le> of_int hi \<Longrightarrow> roundHalfEven q \<le> hi"
proof (cases "q = of_int hi")
  case True
  then show ?thesis by (simp add: roundHalfEven_of_int)
next
  case False
  assume "q \<le> of_int hi"
  then have "q < of_int hi" using False by simp
  then have "\<lfloor>q\<rfloor> < hi" by (simp add: floor_less_iff)
  then show ?thesis by (auto simp: roundHalfEven_def Let_def)
qed

lemma roundHalfEven_near:
  assumes "even N" and "\<bar>q - of_int N\<bar> \<le> 1 / 2"
  shows "roundHalfEven q = N"
proof (cases "of_int N \<le> q")
  case True
  then have f: "\<lfloor>q\<rfloor> = N" using assms(2) by (intro floor_unique) auto
  show ?thesis using assms True by (auto simp: roundHalfEven_def Let_def f)
next
  case False
  then have f: "\<lfloor>q\<rfloor> = N - 1" using assms(2) by (intro floor_unique) auto
  have "odd (N - 1)" using assms(1) by simp
  then show ?thesis using assms(2) False by (auto simp: roundHalfEven_def Let_def f)
qed

lemma fl64_pos:
  assumes "0 < x" and "- 1022 \<le> ilog2 x"
  shows "fl64 x = of_int (roundHalfEven (x / 2 powi (ilog2 x - 52))) * 2 powi (ilog2 x - 52)"
  using assms by (simp add: fl64_def Let_def max_def)


lemma pow2_less_exp: "(2::rat) powi a \<le> x \<Longrightarrow> x < 2 powi b \<Longrightarrow> a < b"
proof (rule ccontr)
  assume 1: "(2::rat) powi a \<le> x" and 2: "x < 2 powi b" and "\<not> a < b"
  then have "b \<le> a" by simp
  then have "(2::rat) powi b \<le> 2 powi a" by (rule power_int_increasing) simp
  then show False using 1 2 by linarith
qed

lemma pow2_shift: "(2::rat) powi (a + int n) = 2 powi a * 2 ^ n"
  by (simp add: power_int_add power_int_of_nat)

lemma pow2_neg: "(2::rat) powi (- int n) = 1 / 2 ^ n"
  by (simp add: power_int_minus power_int_of_nat field_simps)

lemma fl64_half_nat:
  assumes "j < 2 ^ 53"
  shows "fl64 (of_nat j / 2) = of_nat j / 2"
proof (cases "j = 0")
  case True
  then show ?thesis by (simp add: fl64_def)
next
  case False
  define x where "x = (of_nat j :: rat) / 2"
  define e where "e = ilog2 x"
  have jpos: "(1::rat) \<le> of_nat j" using False by (simp add: Suc_leI)
  have x: "0 < x" using jpos by (simp add: x_def)
  have b: "2 powi e \<le> x" "x < 2 powi (e + 1)"
    unfolding e_def using ilog2_bounds [OF x] by simp_all
  have "(of_nat j :: rat) < of_nat (2 ^ 53)" using assms by (simp only: of_nat_less_iff)
  then have "x < 2 ^ 52" by (simp add: x_def)
  moreover have "(2::rat) powi (int 52) = 2 ^ 52" by (rule power_int_of_nat)
  ultimately have "x < 2 powi (int 52)" by simp
  then have "e < int 52" using b(1) by (rule pow2_less_exp [rotated])
  then have e_hi: "e \<le> 51" by simp
  have "(2::rat) powi (- int 1) = 1 / 2 ^ 1" by (rule pow2_neg)
  then have "(2::rat) powi (- int 1) \<le> x" using jpos by (simp add: x_def)
  then have "- int 1 < e + 1" using b(2) by (rule pow2_less_exp)
  then have e_lo: "- 1 \<le> e" by simp
  define k where "k = nat (51 - e)"
  have ek: "e - 52 = - int (Suc k)" using e_hi by (simp add: k_def)
  have U: "(2::rat) powi (e - 52) = 1 / 2 ^ Suc k" unfolding ek by (rule pow2_neg)
  have q: "x / (1 / 2 ^ Suc k) = of_int (int j * 2 ^ k)"
    by (simp add: x_def)
  have "fl64 x = of_int (roundHalfEven (x / 2 powi (e - 52))) * 2 powi (e - 52)"
    unfolding e_def using x e_lo by (intro fl64_pos) (simp_all add: e_def)
  also have "\<dots> = of_int (int j * 2 ^ k) * (1 / 2 ^ Suc k)"
    unfolding U q roundHalfEven_of_int ..
  also have "\<dots> = x" by (simp add: x_def)
  finally show ?thesis by (simp add: x_def)
qed

lemma estimatedMinutes_exact:
  assumes "u < 2 ^ 32" and "p < 2 ^ 32"
  shows "estimatedMinutes u p = of_nat (2 * u + p) / 2"
proof -
  have 1: "fl64 (of_nat u) = of_nat u"
    using fl64_half_nat [of "2 * u"] assms(1) by simp
  have 2: "fl64 (of_nat p / 2) = of_nat p / 2"
    using fl64_half_nat [of p] assms(2) by simp
  have 3: "fl64 (of_nat (2 * u + p) / 2) = of_nat (2 * u + p) / 2"
    using fl64_half_nat [of "2 * u + p"] assms by simp
  have sum: "(of_nat u :: rat) + of_nat p / 2 = of_nat (2 * u + p) / 2" by simp
  have a: "jsMul (of_nat u) 1 = of_nat u" by (simp add: jsMul_def 1)
  have b: "jsMul (of_nat p) (1 / 2) = of_nat p / 2" by (simp add: jsMul_def 2)
  have "estimatedMinutes u p = fl64 (of_nat u + of_nat p / 2)"
    by (simp only: estimatedMinutes_def jsAdd_def a b)
  also have "\<dots> = fl64 (of_nat (2 * u + p) / 2)" by (simp only: sum)
  also have "\<dots> = of_nat (2 * u + p) / 2" by (rule 3)
  finally show ?thesis .
qed


lemma pow2_less_exp': "(2::rat) powi a < x \<Longrightarrow> x < 2 powi b \<Longrightarrow> a < b"
  using pow2_less_exp [of a x b] by simp

lemma ceiling_near:
  fixes b :: rat
  assumes r: "0 < r" "r < 12" and near: "\<bar>b - (of_int d + of_int r / 12)\<bar> < 1 / 12"
  shows "\<lceil>b\<rceil> = d + 1"
proof (rule ceiling_unique)
  have "(1::rat) \<le> of_int r" "(of_int r :: rat) \<le> 11" using r by simp_all
  then have lo: "(of_int d :: rat) + 1 / 12 \<le> of_int d + of_int r / 12"
    and hi: "(of_int d :: rat) + of_int r / 12 \<le> of_int d + 11 / 12" by simp_all
  have n: "b - (of_int d + of_int r / 12) < 1 / 12 \<and> - (b - (of_int d + of_int r / 12)) < 1 / 12"
    using near by (rule abs_less_iff [THEN iffD1])
  have d1: "(of_int (d + 1) :: rat) = of_int d + 1" by simp
  show "of_int (d + 1) - 1 < b" unfolding d1 using n lo by linarith
  show "b \<le> of_int (d + 1)" unfolding d1 using n hi by linarith
qed

text \<open>
  The two roundings of \<open>(m / 60) * 10\<close> for \<open>m = j / 2\<close> minutes, \<open>0 < j < 2^34\<close>, do
  not move the ceiling: when \<open>j / 12\<close> is a whole number the rounded product is that
  number exactly, and otherwise the rounded product stays within \<open>1/12\<close> of \<open>j / 12\<close>.
\<close>

lemma hours_tenths:
  assumes j: "0 < j" "j < 2 ^ 34"
  shows "\<lceil>fl64 (fl64 (of_nat j / 120) * 10)\<rceil> = \<lceil>(of_nat j :: rat) / 12\<rceil>"
proof -
  define x where "x = (of_nat j :: rat) / 120"
  define e where "e = ilog2 x"
  define U where "U = (2::rat) powi (e - 52)"
  define A where "A = roundHalfEven (x / U)"
  define w where "w = of_int A * U * 10"
  define e' where "e' = ilog2 w"
  define U' where "U' = (2::rat) powi (e' - 52)"
  define B where "B = roundHalfEven (w / U')"
  have jr: "(1::rat) \<le> of_nat j" using j(1) by (simp add: Suc_leI)
  have "(of_nat j :: rat) < of_nat (2 ^ 34)" using j(2) by (simp only: of_nat_less_iff)
  then have jr2: "(of_nat j :: rat) < 2 ^ 34" by simp
  have x: "0 < x" using jr by (simp add: x_def)
  have xb: "2 powi e \<le> x" "x < 2 powi (e + 1)"
    unfolding e_def using ilog2_bounds [OF x] by simp_all
  have "(2::rat) powi (- int 7) = 1 / 2 ^ 7" by (rule pow2_neg)
  then have "(2::rat) powi (- int 7) < x" using jr by (simp add: x_def)
  then have "- int 7 < e + 1" using xb(2) by (rule pow2_less_exp')
  then have e_lo: "- 7 \<le> e" by simp
  have "(2::rat) powi (int 28) = 2 ^ 28" by (rule power_int_of_nat)
  moreover have "x < 2 ^ 28" using jr2 by (simp add: x_def)
  ultimately have "x < 2 powi (int 28)" by simp
  then have "e < int 28" using xb(1) by (rule pow2_less_exp [rotated])
  then have e_hi: "e \<le> 27" by simp
  have U: "0 < U" by (simp add: U_def zero_less_power_int)
  have pe: "(2::rat) powi e = U * 2 ^ 52"
    using pow2_shift [of "e - 52" 52] by (simp add: U_def)
  have pe1: "(2::rat) powi (e + 1) = U * 2 ^ 53"
    using pow2_shift [of "e - 52" 53] by (simp add: U_def algebra_simps)
  have pe3: "(2::rat) powi (e + 3) = U * 2 ^ 55"
    using pow2_shift [of "e - 52" 55] by (simp add: U_def algebra_simps)
  have pe5: "(2::rat) powi (e + 5) = U * 2 ^ 57"
    using pow2_shift [of "e - 52" 57] by (simp add: U_def algebra_simps)
  have a: "fl64 x = of_int A * U"
    unfolding A_def U_def e_def using x e_lo by (intro fl64_pos) (simp_all add: e_def)
  have x_lo: "U * 2 ^ 52 \<le> x" using xb(1) unfolding pe .
  have x_hi: "x < U * 2 ^ 53" using xb(2) unfolding pe1 .
  have q_lo: "of_int (2 ^ 52) \<le> x / U"
    using x_lo U by (simp add: pos_le_divide_eq mult.commute)
  have q_hi: "x / U \<le> of_int (2 ^ 53)"
    using x_hi U by (simp add: pos_divide_le_eq mult.commute)
  have A_lo: "2 ^ 52 \<le> A" unfolding A_def using q_lo by (rule roundHalfEven_lower)
  have A_hi: "A \<le> 2 ^ 53" unfolding A_def using q_hi by (rule roundHalfEven_upper)
  have "(of_int (2 ^ 52) :: rat) \<le> of_int A" using A_lo by (simp only: of_int_le_iff)
  then have A_lo': "(2::rat) ^ 52 \<le> of_int A" by simp
  have "(of_int A :: rat) \<le> of_int (2 ^ 53)" using A_hi by (simp only: of_int_le_iff)
  then have A_hi': "(of_int A :: rat) \<le> 2 ^ 53" by simp
  have errA: "\<bar>of_int A - x / U\<bar> \<le> 1 / 2" unfolding A_def by (rule roundHalfEven_error)
  have errA': "\<bar>of_int A * U - x\<bar> \<le> U / 2"
  proof -
    have "of_int A * U - x = (of_int A - x / U) * U" using U by (simp add: field_simps)
    then have "\<bar>of_int A * U - x\<bar> = \<bar>of_int A - x / U\<bar> * U" using U by (simp add: abs_mult)
    also have "\<dots> \<le> (1 / 2) * U" using errA U by (intro mult_right_mono) simp_all
    finally show ?thesis by simp
  qed
  have w_lo: "U * 2 ^ 55 < w"
  proof -
    have "U * 2 ^ 52 \<le> of_int A * U" using A_lo' U by (simp add: mult.commute)
    then have "U * 2 ^ 52 * 10 \<le> w" unfolding w_def by linarith
    moreover have "U * 2 ^ 55 < U * 2 ^ 52 * 10" using U by simp
    ultimately show ?thesis by linarith
  qed
  have w_hi: "w < U * 2 ^ 57"
  proof -
    have "of_int A * U \<le> U * 2 ^ 53" using A_hi' U by (simp add: mult.commute)
    then have "w \<le> U * 2 ^ 53 * 10" unfolding w_def by linarith
    moreover have "U * 2 ^ 53 * 10 < U * 2 ^ 57" using U by simp
    ultimately show ?thesis by linarith
  qed
  have "0 < U * 2 ^ 55" using U by simp
  then have w: "0 < w" using w_lo by linarith
  have wb: "2 powi e' \<le> w" "w < 2 powi (e' + 1)"
    unfolding e'_def using ilog2_bounds [OF w] by simp_all
  have "e' < e + 5" using wb(1) w_hi unfolding pe5 [symmetric] by (rule pow2_less_exp)
  moreover have "e + 3 < e' + 1" using w_lo wb(2) unfolding pe3 [symmetric] by (rule pow2_less_exp')
  ultimately have e'_cases: "e' = e + 3 \<or> e' = e + 4" by linarith
  have b: "fl64 w = of_int B * U'"
    unfolding B_def U'_def e'_def using w e'_cases e_lo by (intro fl64_pos) (auto simp: e'_def)
  have U'_cases: "U' = U * 8 \<or> U' = U * 16"
  proof -
    have "(2::rat) powi (e - 52 + int 3) = U * 2 ^ 3" unfolding U_def by (rule pow2_shift)
    moreover have "(2::rat) powi (e - 52 + int 4) = U * 2 ^ 4" unfolding U_def by (rule pow2_shift)
    moreover have "e + 3 - 52 = e - 52 + int 3" "e + 4 - 52 = e - 52 + int 4" by simp_all
    ultimately show ?thesis using e'_cases unfolding U'_def by auto
  qed
  have U': "0 < U'" by (simp add: U'_def zero_less_power_int)
  have errw: "\<bar>w - of_nat j / 12\<bar> \<le> 5 * U"
  proof -
    have eq: "w - of_nat j / 12 = (of_int A * U - x) * 10" by (simp add: w_def x_def)
    have "\<bar>w - of_nat j / 12\<bar> = \<bar>of_int A * U - x\<bar> * 10"
      unfolding eq abs_mult by simp
    also have "\<dots> \<le> (U / 2) * 10" using errA' by (rule mult_right_mono) simp
    also have "\<dots> = 5 * U" by simp
    finally show ?thesis .
  qed
  show ?thesis
  proof (cases "12 dvd j")
    case False
    define d where "d = int (j div 12)"
    define r where "r = int (j mod 12)"
    have r: "0 < r" "r < 12" using False by (simp_all add: r_def dvd_eq_mod_eq_0)
    have "int j = 12 * d + r" by (simp add: d_def r_def zdiv_int zmod_int)
    then have "(of_int (int j) :: rat) = of_int (12 * d + r)" by simp
    then have t: "(of_nat j :: rat) / 12 = of_int d + of_int r / 12" by simp
    have errB: "\<bar>of_int B - w / U'\<bar> \<le> 1 / 2" unfolding B_def by (rule roundHalfEven_error)
    have "of_int B * U' - w = (of_int B - w / U') * U'" using U' by (simp add: field_simps)
    then have "\<bar>of_int B * U' - w\<bar> = \<bar>of_int B - w / U'\<bar> * U'" using U' by (simp add: abs_mult)
    also have "\<dots> \<le> (1 / 2) * U'" using errB U' by (intro mult_right_mono) simp_all
    also have "\<dots> \<le> 8 * U" using U'_cases U by auto
    finally have "\<bar>of_int B * U' - w\<bar> \<le> 8 * U" .
    then have tot: "\<bar>of_int B * U' - of_nat j / 12\<bar> \<le> 13 * U" using errw by linarith
    have "e - 52 \<le> - int 25" using e_hi by simp
    then have "U \<le> 2 powi (- int 25)" unfolding U_def by (rule power_int_increasing) simp
    also have "\<dots> = 1 / 2 ^ 25" by (rule pow2_neg)
    finally have "13 * U < 1 / 12" by simp
    then have "\<bar>of_int B * U' - (of_int d + of_int r / 12)\<bar> < 1 / 12" using tot t by simp
    then have "\<lceil>of_int B * U'\<rceil> = d + 1" using r by (intro ceiling_near [of r]) simp_all
    moreover have "\<lceil>(of_nat j :: rat) / 12\<rceil> = d + 1"
      unfolding t using r by (intro ceiling_near [of r]) simp_all
    ultimately show ?thesis by (simp add: x_def [symmetric] a w_def [symmetric] b)
  next
    case True
    then obtain n where n: "j = 12 * n" by (auto simp: dvd_def)
    have t: "(of_nat j :: rat) / 12 = of_nat n" by (simp add: n)
    have "e' \<le> 31" using e'_cases e_hi by auto
    define k where "k = nat (51 - e')"
    have ek: "e' - 52 = - int (Suc k)" using \<open>e' \<le> 31\<close> by (simp add: k_def)
    have U'k: "U' = 1 / 2 ^ Suc k" unfolding U'_def ek by (rule pow2_neg)
    define N where "N = int n * 2 ^ Suc k"
    have evN: "even N" by (simp add: N_def)
    have NU: "of_int N * U' = of_nat n" by (simp add: N_def U'k)
    have diff: "w / U' - of_int N = (w - of_nat n) / U'" using U' NU by (simp add: field_simps)
    have errw': "\<bar>w - of_nat n\<bar> \<le> 5 * U" using errw t by simp
    have near: "\<bar>w / U' - of_int N\<bar> \<le> 1 / 2"
      using U'_cases
    proof
      assume 16: "U' = U * 16"
      have "\<bar>w / U' - of_int N\<bar> = \<bar>w - of_nat n\<bar> / U'" using U' by (simp add: diff)
      also have "\<dots> \<le> 5 * U / U'" using errw' U' by (simp add: divide_right_mono)
      also have "\<dots> = 5 / 16" using U by (simp add: 16)
      finally show ?thesis by simp
    next
      assume 8: "U' = U * 8"
      define c where "c = 5 * A - 4 * N"
      have "w / U' = of_int (5 * A) / 4" using U by (simp add: w_def 8)
      then have eq: "w / U' - of_int N = of_int c / 4" by (simp add: c_def)
      have "\<bar>w / U' - of_int N\<bar> = \<bar>w - of_nat n\<bar> / U'" using U' by (simp add: diff)
      also have "\<dots> \<le> 5 * U / U'" using errw' U' by (simp add: divide_right_mono)
      also have "\<dots> = 5 / 8" using U by (simp add: 8)
      finally have "\<bar>(of_int c :: rat) / 4\<bar> \<le> 5 / 8" unfolding eq .
      then have "\<bar>(of_int c :: rat)\<bar> < 3" by simp
      then have "(of_int \<bar>c\<bar> :: rat) < of_int 3" by simp
      then have "\<bar>c\<bar> < 3" by (simp only: of_int_less_iff)
      then have "\<bar>c\<bar> \<le> 2" by simp
      then have "(of_int \<bar>c\<bar> :: rat) \<le> of_int 2" by (simp only: of_int_le_iff)
      then have "\<bar>(of_int c :: rat)\<bar> \<le> 2" by simp
      then show ?thesis unfolding eq by simp
    qed
    have "B = N" unfolding B_def using evN near by (rule roundHalfEven_near)
    then have "fl64 w = of_nat n" using b NU by simp
    then show ?thesis by (simp add: x_def [symmetric] a w_def [symmetric] t)
  qed
qed


lemma estimatedEffortHours_ceiling:
  assumes "u < 2 ^ 32" and "p < 2 ^ 32"
  shows "estimatedEffortHours u p
           = fl64 (of_int \<lceil>((of_nat u :: rat) * 1 + of_nat p * (1 / 2)) / 60 * 10\<rceil> / 10)"
proof -
  define j where "j = 2 * u + p"
  have m: "estimatedMinutes u p = of_nat j / 2"
    unfolding j_def using assms by (rule estimatedMinutes_exact)
  have exact: "((of_nat u :: rat) * 1 + of_nat p * (1 / 2)) / 60 * 10 = of_nat j / 12"
    by (simp add: j_def)
  have hours: "estimatedEffortHours u p
      = fl64 (of_int \<lceil>fl64 (fl64 (of_nat j / 120) * 10)\<rceil> / 10)"
    by (simp add: estimatedEffortHours_def m jsDiv_def jsMul_def mathCeil_def)
  have "\<lceil>fl64 (fl64 (of_nat j / 120) * 10)\<rceil> = \<lceil>(of_nat j :: rat) / 12\<rceil>"
  proof (cases "j = 0")
    case True
    then show ?thesis by (simp add: fl64_def)
  next
    case False
    have "j < 2 ^ 34" using assms by (simp add: j_def)
    then show ?thesis using False by (intro hours_tenths) simp_all
  qed
  then show ?thesis unfolding hours exact by (simp only:)
qed

text \<open>
  C8. The effort estimate of every analysis result is \<open>estimatedEffortHours\<close> of the
  result's own counts of unique unconverted classes and of detected patterns. For counts
  below \<open>2^32\<close> (an array length is), the minutes are computed without rounding error,
  unconverted classes times 1 plus patterns times 0.5, and the estimate is the number of
  hours rounded up to the next tenth: the double nearest to
  \<open>\<lceil>minutes / 60 * 10\<rceil> / 10\<close>, the ceiling taken of the exact quotient.
\<close>

theorem estimatedEffortHours_rounded_up:
  "estimatedEffortHoursOf (pa_summary (fst (analyzeProject env shorthands minPatternCount filePaths)))
     = estimatedEffortHours
         (unconvertedClasses (pa_summary (fst (analyzeProject env shorthands minPatternCount filePaths))))
         (detectedPatterns (pa_summary (fst (analyzeProject env shorthands minPatternCount filePaths)))) \<and>
   (unconverted < 2 ^ 32 \<longrightarrow> patterns < 2 ^ 32 \<longrightarrow>
      estimatedMinutes unconverted patterns = of_nat unconverted * 1 + of_nat patterns * (1 / 2) \<and>
      estimatedEffortHours unconverted patterns
        = fl64 (of_int \<lceil>((of_nat unconverted :: rat) * 1 + of_nat patterns * (1 / 2)) / 60 * 10\<rceil>
                / 10))"
proof -
  have 1: "estimatedEffortHoursOf (pa_summary (fst (analyzeProject env shorthands minPatternCount filePaths)))
     = estimatedEffortHours
         (unconvertedClasses (pa_summary (fst (analyzeProject env shorthands minPatternCount filePaths))))
         (detectedPatterns (pa_summary (fst (analyzeProject env shorthands minPatternCount filePaths))))"
    by (simp add: analyzeProject_def Let_def)
  have 2: "estimatedMinutes unconverted patterns = of_nat unconverted * 1 + of_nat patterns * (1 / 2) \<and>
      estimatedEffortHours unconverted patterns
        = fl64 (of_int \<lceil>((of_nat unconverted :: rat) * 1 + of_nat patterns * (1 / 2)) / 60 * 10\<rceil>
                / 10)"
    if u: "unconverted < 2 ^ 32" and p: "patterns < 2 ^ 32"
  proof -
    have "estimatedMinutes unconverted patterns = of_nat (2 * unconverted + patterns) / 2"
      using u p by (rule estimatedMinutes_exact)
    then have "estimatedMinutes unconverted patterns
        = of_nat unconverted * 1 + of_nat patterns * (1 / 2)" by simp
    then show ?thesis using estimatedEffortHours_ceiling [OF u p] by blast
  qed
  show ?thesis using 1 2 by blast
qed

text \<open>
  The theorem on the sample project, with two unconverted classes and one detected
  pattern: 2.5 minutes, a twenty-fourth of an hour, give 0.1; and at 66 minutes, which
  are 1.1 hours exactly.
\<close>

theorem estimatedEffortHours_rounded_up_witness:
  "(2::nat) < 2 ^ 32 \<and> (1::nat) < 2 ^ 32 \<and>
   unconvertedClasses (pa_summary (fst (analyzeProject sampleProject False 2 sampleFiles))) = 2 \<and>
   detectedPatterns (pa_summary (fst (analyzeProject sampleProject False 2 sampleFiles))) = 1 \<and>
   estimatedMinutes 2 1 = 5 / 2 \<and>
   estimatedEffortHoursOf (pa_summary (fst (analyzeProject sampleProject False 2 sampleFiles)))
     = fl64 (1 / 10) \<and>
   (66::nat) < 2 ^ 32 \<and> (0::nat) < 2 ^ 32 \<and>
   estimatedEffortHours 66 0 = fl64 (11 / 10)"
proof -
  have counts:
    "unconvertedClasses (pa_summary (fst (analyzeProject sampleProject False 2 sampleFiles))) = 2"
    "detectedPatterns (pa_summary (fst (analyzeProject sampleProject False 2 sampleFiles))) = 1"
    by code_simp+
  have c1: "\<lceil>(5::rat) / 12\<rceil> = 1" by (rule ceiling_unique) simp_all
  note sample = estimatedEffortHours_rounded_up [of sampleProject False 2 sampleFiles 2 1]
  note whole = estimatedEffortHours_rounded_up [of sampleProject False 2 sampleFiles 66 0]
  have m: "estimatedMinutes 2 1 = 5 / 2" using sample by simp
  have "estimatedEffortHours 2 1 = fl64 (1 / 10)" using sample c1 by simp
  then have h: "estimatedEffortHoursOf (pa_summary (fst (analyzeProject sampleProject False 2 sampleFiles)))
     = fl64 (1 / 10)" using sample counts by simp
  have w: "estimatedEffortHours 66 0 = fl64 (11 / 10)" using whole by simp
  show ?thesis using counts m h w by simp
qed

text \<open>
  C8 as the specification words it, rounding to the nearest tenth, fails on the sample
  project: a twenty-fourth of an hour is nearer to 0.0, and the estimate is the double
  nearest to 0.1.
\<close>

theorem estimatedEffortHours_nearest_counterexample:
  "unconvertedClasses (pa_summary (fst (analyzeProject sampleProject False 2 sampleFiles))) = 2 \<and>
   detectedPatterns (pa_summary (fst (analyzeProject sampleProject False 2 sampleFiles))) = 1 \<and>
   estimatedEffortHoursOf (pa_summary (fst (analyzeProject sampleProject False 2 sampleFiles)))
     = 3602879701896397 / 36028797018963968 \<and>
   roundedToOneDecimal ((2 * 1 + 1 * (1 / 2)) / 60) = 0"
  by code_simp

end
